theory Spec2Isabelle
  imports Complex_Main "HOL-Library.Multiset" "HOL-Library.Word"
begin

section \<open>Doubles\<close>

text \<open>
  The C++ type \<open>double\<close> of \<^verbatim>\<open>tsp_cs.cpp\<close>. A finite double is the real number it
  denotes (\<open>Num\<close>); the two zeros are not told apart. The two infinities and NaN are
  kept, because \<^verbatim>\<open>check_weights\<close> tests for NaN and \<^verbatim>\<open>objfun_impl\<close> divides by a member
  that can be zero.

  The operations \<open>dadd\<close>, \<open>dsub\<close>, \<open>dmul\<close> and \<open>ddiv\<close> return the exact sum, difference,
  product and quotient of two finite doubles. The source computes in the binary64 format
  of IEEE 754, where an operation returns the exact result if that is a number of the
  format (\<open>binary64\<close> below) and the nearest number of the format, or an infinity,
  otherwise. So the operations below are those of the source on the operands whose exact
  result is a number of the format, and on no others. What is proved of the result of
  the search is therefore stated for the instances on which every operation of the run
  has such a result (\<open>exact_instance\<close> below), or is an evaluation at such an instance;
  the comparisons do not round.
\<close>

datatype double = Num real | PInf | NInf | NaN

fun dneg :: "double \<Rightarrow> double" where
  "dneg (Num a) = Num (- a)"
| "dneg PInf = NInf"
| "dneg NInf = PInf"
| "dneg NaN = NaN"

fun dadd :: "double \<Rightarrow> double \<Rightarrow> double" where
  "dadd NaN y = NaN"
| "dadd x NaN = NaN"
| "dadd (Num a) (Num b) = Num (a + b)"
| "dadd PInf NInf = NaN"
| "dadd NInf PInf = NaN"
| "dadd PInf y = PInf"
| "dadd x PInf = PInf"
| "dadd NInf y = NInf"
| "dadd x NInf = NInf"

definition dsub :: "double \<Rightarrow> double \<Rightarrow> double" where
  "dsub x y = dadd x (dneg y)"

text \<open>The sign of a double that is not NaN: \<open>-1\<close>, \<open>0\<close> or \<open>1\<close>.\<close>

fun dsgn :: "double \<Rightarrow> int" where
  "dsgn (Num a) = (if a < 0 then -1 else if a = 0 then 0 else 1)"
| "dsgn PInf = 1"
| "dsgn NInf = -1"
| "dsgn NaN = 0"

definition signed_inf :: "int \<Rightarrow> double" where
  "signed_inf s = (if s < 0 then NInf else PInf)"

fun dmul :: "double \<Rightarrow> double \<Rightarrow> double" where
  "dmul NaN y = NaN"
| "dmul x NaN = NaN"
| "dmul (Num a) (Num b) = Num (a * b)"
| "dmul x y = (if dsgn x * dsgn y = 0 then NaN else signed_inf (dsgn x * dsgn y))"

fun ddiv :: "double \<Rightarrow> double \<Rightarrow> double" where
  "ddiv NaN y = NaN"
| "ddiv x NaN = NaN"
| "ddiv (Num a) (Num b) =
     (if b \<noteq> 0 then Num (a / b) else if a = 0 then NaN else signed_inf (dsgn (Num a)))"
| "ddiv (Num a) y = Num 0"
| "ddiv x (Num b) = signed_inf (dsgn x * (if b < 0 then -1 else 1))"
| "ddiv x y = NaN"

text \<open>The comparisons \<^verbatim>\<open>==\<close>, \<^verbatim>\<open>!=\<close>, \<^verbatim>\<open><\<close> and \<^verbatim>\<open>>\<close>: every comparison with NaN is
  false, but \<^verbatim>\<open>!=\<close>, which is true.\<close>

fun deq :: "double \<Rightarrow> double \<Rightarrow> bool" where
  "deq NaN y = False"
| "deq x NaN = False"
| "deq x y = (x = y)"

definition dne :: "double \<Rightarrow> double \<Rightarrow> bool" where
  "dne x y = (\<not> deq x y)"

fun dless :: "double \<Rightarrow> double \<Rightarrow> bool" where
  "dless NaN y = False"
| "dless x NaN = False"
| "dless (Num a) (Num b) = (a < b)"
| "dless NInf NInf = False"
| "dless NInf y = True"
| "dless x NInf = False"
| "dless PInf y = False"
| "dless x PInf = True"

definition dgreater :: "double \<Rightarrow> double \<Rightarrow> bool" where
  "dgreater x y = dless y x"

text \<open>The implicit conversions: a double used as a condition, \<^verbatim>\<open>!x\<close> on a double, a
  \<^verbatim>\<open>bool\<close> and a \<^verbatim>\<open>size_t\<close> used as a double.\<close>

definition to_bool :: "double \<Rightarrow> bool" where
  "to_bool x = dne x (Num 0)"

definition lnot :: "double \<Rightarrow> bool" where
  "lnot x = (\<not> to_bool x)"

definition of_bool_d :: "bool \<Rightarrow> double" where
  "of_bool_d b = Num (if b then 1 else 0)"

definition of_size :: "nat \<Rightarrow> double" where
  "of_size n = Num (real n)"

section \<open>The problem instance\<close>

datatype encoding_type = FULL | RANDOMKEYS | CITIES

datatype error = value_error string | undefined_behaviour

text \<open>
  The members of \<^verbatim>\<open>tsp_cs\<close>, with the two members of its base class \<^verbatim>\<open>base_tsp\<close> that
  this file reads through \<^verbatim>\<open>get_n_cities()\<close> and \<^verbatim>\<open>get_encoding()\<close>.
\<close>

record tsp_cs =
  n_cities :: nat
  encoding :: encoding_type
  m_weights :: "double list list"
  m_values :: "double list"
  m_max_path_length :: double
  m_min_value :: double

subsection \<open>\<^verbatim>\<open>check_weights\<close>\<close>

text \<open>
  The three tests of the inner loop body, in the order of the source; \<^verbatim>\<open>pagmo_throw\<close>
  leaves the function. The third test compares the \<^verbatim>\<open>bool\<close> \<^verbatim>\<open>!x\<close>, converted to a
  double, with \<^verbatim>\<open>x\<close>.
\<close>

definition check_cell :: "nat \<Rightarrow> nat \<Rightarrow> double \<Rightarrow> error + unit" where
  "check_cell i j x =
     (if i = j \<and> dne x (Num 0) then
        Inl (value_error ''main diagonal elements must all be zeros.'')
      else if i \<noteq> j \<and> lnot x then
        Inl (value_error ''adjacency matrix contains zero values.'')
      else if i \<noteq> j \<and> deq (of_bool_d (lnot x)) x then
        Inl (value_error ''adjacency matrix contains NaN values.'')
      else Inr ())"

fun check_cells :: "nat \<Rightarrow> nat \<Rightarrow> double list \<Rightarrow> error + unit" where
  "check_cells i j [] = Inr ()"
| "check_cells i j (x # xs) =
     (case check_cell i j x of Inl e \<Rightarrow> Inl e | Inr u \<Rightarrow> check_cells i (Suc j) xs)"

fun check_rows :: "nat \<Rightarrow> nat \<Rightarrow> double list list \<Rightarrow> error + unit" where
  "check_rows n_cols i [] = Inr ()"
| "check_rows n_cols i (row # rows) =
     (if length row \<noteq> n_cols then Inl (value_error ''adjacency matrix is not square'')
      else case check_cells i 0 row of
             Inl e \<Rightarrow> Inl e
           | Inr u \<Rightarrow> check_rows n_cols (Suc i) rows)"

definition check_weights :: "double list list \<Rightarrow> error + unit" where
  "check_weights matrix = check_rows (length matrix) 0 matrix"

subsection \<open>\<^verbatim>\<open>compute_dimensions\<close>\<close>

text \<open>The two entries of the returned array, for \<open>1 \<le> n_cities\<close> and results that fit
  an \<^verbatim>\<open>int\<close>.\<close>

definition compute_dimensions :: "nat \<Rightarrow> encoding_type \<Rightarrow> nat \<times> nat" where
  "compute_dimensions n e =
     (case e of
        FULL \<Rightarrow> (n * (n - 1) + 2, (n - 1) * (n - 2))
      | RANDOMKEYS \<Rightarrow> (0, 0)
      | CITIES \<Rightarrow> (1, 0))"

subsection \<open>The constructors\<close>

text \<open>
  \<^verbatim>\<open>std::min(a, b)\<close> returns \<^verbatim>\<open>b\<close> if \<^verbatim>\<open>b < a\<close> and \<^verbatim>\<open>a\<close> otherwise. The constructor
  calls it on the two iterators \<^verbatim>\<open>m_values.begin()\<close> and \<^verbatim>\<open>m_values.end()\<close>, which
  are compared as positions in the vector: position \<open>0\<close> and position \<open>length m_values\<close>.
\<close>

definition std_min :: "nat \<Rightarrow> nat \<Rightarrow> nat" where
  "std_min a b = (if b < a then b else a)"

text \<open>Dereferencing an iterator; at the end of the vector this is undefined behaviour.\<close>

definition deref :: "double list \<Rightarrow> nat \<Rightarrow> error + double" where
  "deref v it = (if it < length v then Inr (v ! it) else Inl undefined_behaviour)"

definition tsp_cs_new ::
  "double list list \<Rightarrow> double list \<Rightarrow> double \<Rightarrow> encoding_type \<Rightarrow> error + tsp_cs" where
  "tsp_cs_new weights vals max_path_length enc =
     (case check_weights weights of
        Inl e \<Rightarrow> Inl e
      | Inr u \<Rightarrow>
          if length weights \<noteq> length vals then
            Inl (value_error ''Size of weight matrix and values vector must be equal'')
          else
            (case deref vals (std_min 0 (length vals)) of
               Inl e \<Rightarrow> Inl e
             | Inr m \<Rightarrow>
                 Inr \<lparr>n_cities = length weights, encoding = enc, m_weights = weights,
                      m_values = vals, m_max_path_length = max_path_length,
                      m_min_value = m\<rparr>))"

definition tsp_cs_default :: tsp_cs where
  "tsp_cs_default =
     \<lparr>n_cities = 3, encoding = RANDOMKEYS,
      m_weights = [[Num 0, Num 1, Num 1], [Num 1, Num 0, Num 1], [Num 1, Num 1, Num 0]],
      m_values = [Num 1, Num 1, Num 1],
      m_max_path_length = Num 1,
      m_min_value = Num 1\<rparr>"

subsection \<open>\<^verbatim>\<open>compute_idx\<close>\<close>

text \<open>
  The index of the arc \<open>(i, j)\<close> in a FULL chromosome. The source asserts \<open>i \<noteq> j\<close>,
  \<open>i < n\<close> and \<open>j < n\<close>. Its arguments and its result are \<^verbatim>\<open>size_t\<close>, here of 64 bits:
  \<open>compute_idx_size_t\<close> is the function on machine words. Under the assertion, and when
  the \<open>n * (n - 1)\<close> arc variables of a chromosome can be counted in a \<^verbatim>\<open>size_t\<close>, no step
  of it wraps around, and it computes \<open>compute_idx\<close> on the natural numbers
  (\<open>compute_idx_size_t_nat\<close> below), the function that the rest of this theory uses.
\<close>

definition compute_idx_size_t :: "64 word \<Rightarrow> 64 word \<Rightarrow> 64 word \<Rightarrow> 64 word" where
  "compute_idx_size_t i j n = i * (n - 1) + j - (if j > i then 1 else 0)"

definition compute_idx :: "nat \<Rightarrow> nat \<Rightarrow> nat \<Rightarrow> nat" where
  "compute_idx i j n = i * (n - 1) + j - (if j > i then 1 else 0)"

subsection \<open>\<^verbatim>\<open>find_city_subsequence\<close>\<close>

text \<open>The local variables of the function and its four output parameters.\<close>

record search_state =
  it_l :: nat
  it_r :: nat
  cond_r :: bool
  cond_l :: bool
  cum_p :: double
  saved_length :: double
  retval_p :: double
  retval_l :: double
  retval_it_l :: nat
  retval_it_r :: nat

text \<open>The four assignments to the output parameters, which the source repeats in each
  branch that accepts the current subpath.\<close>

definition record_retvals :: "nat \<Rightarrow> search_state \<Rightarrow> search_state" where
  "record_retvals n s =
     s\<lparr>retval_p := cum_p s, retval_l := saved_length s,
       retval_it_l := it_l s mod n, retval_it_r := it_r s mod n\<rparr>"

text \<open>The comparison of the current subpath with the best one so far: lines 218 to 234
  of the source, and again lines 251 to 267.\<close>

definition update_retvals :: "nat \<Rightarrow> search_state \<Rightarrow> search_state" where
  "update_retvals n s =
     (if dgreater (cum_p s) (retval_p s) then record_retvals n s
      else if deq (cum_p s) (retval_p s) then
        (if dgreater (saved_length s) (retval_l s) then record_retvals n s else s)
      else s)"

text \<open>The weight of the edge that leaves tour position \<open>p\<close>:
  \<^verbatim>\<open>m_weights[tour[p % n_cities]][tour[(p + 1) % n_cities]]\<close>.\<close>

definition edge :: "tsp_cs \<Rightarrow> nat list \<Rightarrow> nat \<Rightarrow> double" where
  "edge P tour p =
     m_weights P ! (tour ! (p mod n_cities P)) ! (tour ! ((p + 1) mod n_cities P))"

text \<open>The body of the inner loop \<^verbatim>\<open>while(cond_r)\<close>.\<close>

definition extend_right :: "tsp_cs \<Rightarrow> nat list \<Rightarrow> search_state \<Rightarrow> search_state" where
  "extend_right P tour s =
     (let n = n_cities P;
          s1 = s\<lparr>saved_length := dsub (saved_length s) (edge P tour (it_r s)),
                 cum_p := dadd (cum_p s) (m_values P ! ((it_r s + 1) mod n)),
                 it_r := it_r s + 1\<rparr>
      in if dless (saved_length s1) (Num 0) \<or> it_l s1 mod n = it_r s1 mod n
         then s1\<lparr>cond_r := False\<rparr>
         else update_retvals n s1)"

text \<open>The rest of the body of the outer loop \<^verbatim>\<open>while(cond_l)\<close>, after the inner loop.\<close>

definition advance_left :: "tsp_cs \<Rightarrow> nat list \<Rightarrow> search_state \<Rightarrow> search_state" where
  "advance_left P tour s =
     (let n = n_cities P in
      if it_l s mod n = it_r s mod n then s\<lparr>cond_l := False\<rparr>
      else
        let s1 = s\<lparr>saved_length := dadd (saved_length s) (edge P tour (it_l s)),
                   cum_p := dsub (cum_p s) (m_values P ! (it_l s)),
                   it_l := it_l s + 1\<rparr>;
            s2 = (if dgreater (saved_length s1) (Num 0)
                  then update_retvals n (s1\<lparr>cond_r := True\<rparr>)
                  else s1)
        in if it_l s2 = n then s2\<lparr>cond_l := False\<rparr> else s2)"

text \<open>The two loops. A loop that does not stop has no final state: \<open>None\<close>.\<close>

partial_function (option) inner_loop ::
  "tsp_cs \<Rightarrow> nat list \<Rightarrow> search_state \<Rightarrow> search_state option" where
  "inner_loop P tour s =
     (if cond_r s then inner_loop P tour (extend_right P tour s) else Some s)"

partial_function (option) outer_loop ::
  "tsp_cs \<Rightarrow> nat list \<Rightarrow> search_state \<Rightarrow> search_state option" where
  "outer_loop P tour s =
     (if cond_l s
      then Option.bind (inner_loop P tour s) (\<lambda>s'. outer_loop P tour (advance_left P tour s'))
      else Some s)"

declare inner_loop.simps [code]

declare outer_loop.simps [code]

definition init_state :: "tsp_cs \<Rightarrow> nat list \<Rightarrow> search_state" where
  "init_state P tour =
     \<lparr>it_l = 0, it_r = 0, cond_r = True, cond_l = True,
      cum_p = m_values P ! (tour ! 0), saved_length = m_max_path_length P,
      retval_p = m_values P ! (tour ! 0), retval_l = m_max_path_length P,
      retval_it_l = 0, retval_it_r = 0\<rparr>"

text \<open>
  A tour is a \<^verbatim>\<open>decision_vector\<close>: its entries are doubles, and the source uses them as
  indices, which converts them to \<^verbatim>\<open>size_t\<close> by truncation. The conversion is undefined
  for NaN, for an infinity and for a value that truncates to a negative integer.
\<close>

definition to_index :: "double \<Rightarrow> nat option" where
  "to_index x = (case x of Num a \<Rightarrow> if -1 < a then Some (nat \<lfloor>a\<rfloor>) else None | _ \<Rightarrow> None)"

text \<open>
  The reads \<^verbatim>\<open>tour[..]\<close>, \<^verbatim>\<open>m_values[..]\<close> and \<^verbatim>\<open>m_weights[..][..]\<close> of the function are
  unchecked. They are in range when there is a city, the value vector has an entry for
  each city, the matrix has a row of \<open>n_cities\<close> entries for each city, and every entry
  of the tour converts to the index of a city. Otherwise the behaviour of the source is
  undefined (its comment says so for a tour that is no Hamiltonian path).
\<close>

definition vectors_sized :: "tsp_cs \<Rightarrow> bool" where
  "vectors_sized P =
     (length (m_values P) = n_cities P \<and> length (m_weights P) = n_cities P
      \<and> list_all (\<lambda>row. length row = n_cities P) (m_weights P))"

definition cities_of :: "tsp_cs \<Rightarrow> double list \<Rightarrow> nat list option" where
  "cities_of P tour =
     (if 1 \<le> n_cities P \<and> vectors_sized P
         \<and> list_all (\<lambda>x. case to_index x of None \<Rightarrow> False | Some c \<Rightarrow> c < n_cities P) tour
      then Some (map (\<lambda>x. the (to_index x)) tour)
      else None)"

text \<open>The result: the four output parameters \<^verbatim>\<open>retval_p\<close>, \<^verbatim>\<open>retval_l\<close>, \<^verbatim>\<open>retval_it_l\<close>
  and \<^verbatim>\<open>retval_it_r\<close>.\<close>

definition find_city_subsequence ::
  "tsp_cs \<Rightarrow> double list \<Rightarrow> (error + double \<times> double \<times> nat \<times> nat) option" where
  "find_city_subsequence P tour =
     (if length tour \<noteq> n_cities P then
        Some (Inl (value_error ''tour dimension must be equal to the city number''))
      else
        case cities_of P tour of
          None \<Rightarrow> Some (Inl undefined_behaviour)
        | Some cs \<Rightarrow>
            map_option (\<lambda>s. Inr (retval_p s, retval_l s, retval_it_l s, retval_it_r s))
              (outer_loop P cs (init_state P cs)))"

subsection \<open>\<^verbatim>\<open>objfun_impl\<close>\<close>

text \<open>
  The decoders \<^verbatim>\<open>full2cities\<close> and \<^verbatim>\<open>randomkeys2cities\<close> belong to the base class
  \<^verbatim>\<open>base_tsp\<close> and are parameters here. The fitness vector \<open>f\<close> is an output parameter
  of the source; the function returns its new content.
\<close>

definition decode_tour ::
  "(double list \<Rightarrow> double list) \<Rightarrow> (double list \<Rightarrow> double list) \<Rightarrow> tsp_cs \<Rightarrow>
     double list \<Rightarrow> double list" where
  "decode_tour full2cities randomkeys2cities P x =
     (case encoding P of
        FULL \<Rightarrow> full2cities x
      | RANDOMKEYS \<Rightarrow> randomkeys2cities x
      | CITIES \<Rightarrow> x)"

definition fitness_value :: "tsp_cs \<Rightarrow> double \<Rightarrow> double \<Rightarrow> double" where
  "fitness_value P cum saved =
     dneg (dadd (dadd cum (dmul (dsub (Num 1) (m_min_value P)) (of_size (n_cities P))))
                (ddiv saved (m_max_path_length P)))"

definition objfun_impl ::
  "(double list \<Rightarrow> double list) \<Rightarrow> (double list \<Rightarrow> double list) \<Rightarrow> tsp_cs \<Rightarrow>
     double list \<Rightarrow> double list \<Rightarrow> (error + double list) option" where
  "objfun_impl full2cities randomkeys2cities P f x =
     (if f = [] then Some (Inl undefined_behaviour)
      else
        let f0 = f[0 := Num 0];
            tour = decode_tour full2cities randomkeys2cities P x
        in case find_city_subsequence P tour of
             None \<Rightarrow> None
           | Some (Inl e) \<Rightarrow> Some (Inl e)
           | Some (Inr (cum, saved, dumb1, dumb2)) \<Rightarrow>
               Some (Inr (f0[0 := fitness_value P cum saved])))"

subsection \<open>\<^verbatim>\<open>compute_constraints_impl\<close>\<close>

text \<open>The ordered pairs \<open>(i, j)\<close> with \<open>i \<noteq> j\<close> that two nested loops from \<open>lo\<close> to
  \<open>n - 1\<close> visit, in the order of the visit.\<close>

definition arcs :: "nat \<Rightarrow> nat \<Rightarrow> (nat \<times> nat) list" where
  "arcs lo n = concat (map (\<lambda>i. map (\<lambda>j. (i, j)) (filter (\<lambda>j. i \<noteq> j) [lo..<n])) [lo..<n])"

text \<open>The equality constraints of the FULL encoding. \<open>degree_step\<close> is the body of the
  loop over \<open>j\<close>, \<open>degree_row\<close> the body of the loop over \<open>i\<close>.\<close>

definition degree_step :: "nat \<Rightarrow> double list \<Rightarrow> nat \<Rightarrow> nat \<Rightarrow> double list \<Rightarrow> double list" where
  "degree_step n x i j c =
     (if i = j then c
      else
        let rows = compute_idx i j n;
            cols = compute_idx j i n;
            c1 = c[i := dadd (c ! i) (x ! rows)]
        in c1[i + n := dadd (c1 ! (i + n)) (x ! cols)])"

definition degree_row :: "nat \<Rightarrow> double list \<Rightarrow> nat \<Rightarrow> double list \<Rightarrow> double list" where
  "degree_row n x i c =
     (let c1 = c[i := Num 0];
          c2 = c1[i + n := Num 0];
          c3 = fold (degree_step n x i) [0..<n] c2;
          c4 = c3[i := dsub (c3 ! i) (Num 1)]
      in c4[i + n := dsub (c4 ! (i + n)) (Num 1)])"

definition degree_constraints :: "nat \<Rightarrow> double list \<Rightarrow> double list \<Rightarrow> double list" where
  "degree_constraints n x c = fold (degree_row n x) [0..<n] c"

text \<open>
  The ranks \<open>u\<close>: the walk from city \<open>0\<close> that follows, from each city, the first arc
  whose variable equals \<open>1\<close>. When a city has no such arc, \<^verbatim>\<open>next_city\<close> keeps its
  value. The state of the walk is \<open>(u, current_city, next_city)\<close>.
\<close>

definition find_next :: "nat \<Rightarrow> double list \<Rightarrow> nat \<Rightarrow> nat \<Rightarrow> nat" where
  "find_next n x current_city next_city =
     (case find (\<lambda>j. current_city \<noteq> j \<and> deq (x ! compute_idx current_city j n) (Num 1))
             [0..<n] of
        None \<Rightarrow> next_city
      | Some j \<Rightarrow> j)"

definition walk_step ::
  "nat \<Rightarrow> double list \<Rightarrow> nat \<Rightarrow> int list \<times> nat \<times> nat \<Rightarrow> int list \<times> nat \<times> nat" where
  "walk_step n x i st =
     (case st of (u, current_city, next_city) \<Rightarrow>
        let u1 = u[current_city := int (i + 1)];
            nxt = find_next n x current_city next_city
        in (u1, nxt, nxt))"

definition ranks :: "nat \<Rightarrow> double list \<Rightarrow> int list" where
  "ranks n x = fst (fold (walk_step n x) [0..<n] (replicate n 0, 0, 0))"

text \<open>The inequality constraints of the FULL encoding; the state of the two loops is
  \<open>(c, cnt)\<close>, where \<open>cnt\<close> is the counter \<^verbatim>\<open>count\<close> of the source.\<close>

definition subtour_value :: "nat \<Rightarrow> double list \<Rightarrow> int list \<Rightarrow> nat \<Rightarrow> nat \<Rightarrow> double" where
  "subtour_value n x u i j =
     dsub (dadd (Num (real_of_int (u ! i - u ! j)))
                (dmul (of_size (n + 1)) (x ! compute_idx i j n)))
          (of_size n)"

definition subtour_step ::
  "nat \<Rightarrow> double list \<Rightarrow> int list \<Rightarrow> nat \<times> nat \<Rightarrow> double list \<times> nat \<Rightarrow> double list \<times> nat" where
  "subtour_step n x u a st =
     (case st of (c, cnt) \<Rightarrow>
        (c[2 * n + cnt := subtour_value n x u (fst a) (snd a)], cnt + 1))"

definition subtour_constraints ::
  "nat \<Rightarrow> double list \<Rightarrow> int list \<Rightarrow> double list \<Rightarrow> double list" where
  "subtour_constraints n x u c = fst (fold (subtour_step n x u) (arcs 1 n) (c, 0))"

text \<open>
  \<^verbatim>\<open>std::is_permutation(first1, last1, first2)\<close> of the C++ standard library, as its
  implementations compute it: skip the common prefix of the two ranges; then, for every
  element of the rest of the first range that has not occurred before in that rest, count
  its occurrences in the rest of the second range and in the first range from the element
  on; the counts must agree and not be zero. The first range holds doubles, the second
  \<^verbatim>\<open>size_t\<close> values, compared by \<^verbatim>\<open>==\<close> after the conversion to double.
\<close>

definition common_prefix :: "double list \<Rightarrow> nat list \<Rightarrow> nat" where
  "common_prefix xs ys = length (takeWhile (\<lambda>p. deq (fst p) (of_size (snd p))) (zip xs ys))"

definition scan_ok :: "double list \<Rightarrow> nat list \<Rightarrow> nat \<Rightarrow> bool" where
  "scan_ok xs ys i =
     (let s = xs ! i in
      if list_ex (\<lambda>x. deq x s) (take i xs) then True
      else
        let matches = length (filter (\<lambda>y. deq (of_size y) s) ys)
        in \<not> (0 = matches \<or> length (filter (\<lambda>x. deq x s) (drop i xs)) \<noteq> matches))"

definition is_permutation :: "double list \<Rightarrow> nat list \<Rightarrow> bool" where
  "is_permutation xs ys =
     (let k = common_prefix xs ys;
          xs' = drop k xs;
          ys' = drop k ys
      in list_all (scan_ok xs' ys') [0..<length xs'])"

text \<open>
  The constraint vector \<open>c\<close> is an output parameter; the function returns its new
  content. A write outside \<open>c\<close> and a read outside \<open>x\<close> or outside the vector \<^verbatim>\<open>range\<close>
  of \<open>n_cities\<close> entries are undefined behaviour.
\<close>

definition compute_constraints_impl :: "tsp_cs \<Rightarrow> double list \<Rightarrow> double list \<Rightarrow> error + double list" where
  "compute_constraints_impl P c x =
     (let n = n_cities P in
      case encoding P of
        FULL \<Rightarrow>
          if n * (n - 1) \<le> length x \<and> 2 * n + (n - 1) * (n - 2) \<le> length c
          then Inr (subtour_constraints n x (ranks n x) (degree_constraints n x c))
          else Inl undefined_behaviour
      | RANDOMKEYS \<Rightarrow> Inr c
      | CITIES \<Rightarrow>
          if c \<noteq> [] \<and> length x \<le> n
          then Inr (c[0 := of_bool_d (\<not> is_permutation x (take (length x) [0..<n]))])
          else Inl undefined_behaviour)"

text \<open>The arcs of \<open>n\<close> cities: the arguments that the assertion of \<^verbatim>\<open>compute_idx\<close>
  admits.\<close>

definition arc_set :: "nat \<Rightarrow> (nat \<times> nat) set" where
  "arc_set n = {(i, j). i \<noteq> j \<and> i < n \<and> j < n}"

subsection \<open>Windows of a tour\<close>

text \<open>
  The notions in which the properties of the search are stated. A finite double is read
  as a real number by \<open>num\<close>. A window is given by its first and its last tour position,
  \<open>l \<le> r < l + n_cities\<close>, taken modulo \<open>n_cities\<close>. Its length is the sum of the weights of
  the edges between consecutive positions of the window, and its value is the sum of
  \<^verbatim>\<open>m_values[tour[p]]\<close> over its positions \<open>p\<close>.
\<close>

definition num :: "double \<Rightarrow> real" where
  "num x = (case x of Num a \<Rightarrow> a | _ \<Rightarrow> 0)"

definition nonneg :: "double \<Rightarrow> bool" where
  "nonneg x = (case x of Num a \<Rightarrow> 0 \<le> a | _ \<Rightarrow> False)"

definition nonneg_weights :: "tsp_cs \<Rightarrow> bool" where
  "nonneg_weights P = list_all (list_all nonneg) (m_weights P)"

definition nonneg_values :: "tsp_cs \<Rightarrow> bool" where
  "nonneg_values P = list_all nonneg (m_values P)"

definition search_input :: "tsp_cs \<Rightarrow> nat list \<Rightarrow> bool" where
  "search_input P cs =
     (vectors_sized P \<and> 1 \<le> n_cities P \<and> length cs = n_cities P
      \<and> list_all (\<lambda>c. c < n_cities P) cs)"

definition edge_weight :: "tsp_cs \<Rightarrow> nat list \<Rightarrow> nat \<Rightarrow> real" where
  "edge_weight P cs p = num (edge P cs p)"

definition window_length :: "tsp_cs \<Rightarrow> nat list \<Rightarrow> nat \<Rightarrow> nat \<Rightarrow> real" where
  "window_length P cs l r = (\<Sum>p = l..<r. edge_weight P cs p)"

definition window_value :: "tsp_cs \<Rightarrow> nat list \<Rightarrow> nat \<Rightarrow> nat \<Rightarrow> real" where
  "window_value P cs l r = (\<Sum>p = l..<Suc r. num (m_values P ! (cs ! (p mod n_cities P))))"

text \<open>
  The search does not add \<^verbatim>\<open>m_values[tour[p]]\<close> when a position enters the window, but
  \<^verbatim>\<open>m_values[p]\<close>, the value of the city whose number is the position; only the first
  position of the tour enters with \<^verbatim>\<open>m_values[tour[0]]\<close>. What it accumulates for a
  window is \<open>scanned_value\<close>, shifted by \<open>value_offset\<close>.
\<close>

definition position_value :: "tsp_cs \<Rightarrow> nat \<Rightarrow> real" where
  "position_value P p = num (m_values P ! (p mod n_cities P))"

definition scanned_value :: "tsp_cs \<Rightarrow> nat \<Rightarrow> nat \<Rightarrow> real" where
  "scanned_value P l r = (\<Sum>p = l..<Suc r. position_value P p)"

definition value_offset :: "tsp_cs \<Rightarrow> nat list \<Rightarrow> real" where
  "value_offset P cs = num (m_values P ! (cs ! 0)) - num (m_values P ! 0)"

subsection \<open>Invariants of the search\<close>

text \<open>
  The invariants relate a state of the two loops to the windows of the tour, for a finite
  budget \<open>L\<close>, in terms of the exact sums. \<open>recorded\<close>: the output parameters describe the window from \<open>a\<close> to \<open>e\<close>.
  \<open>shape_inv\<close>: the two pointers delimit a window, the accumulators hold its value and
  what it leaves of the budget, and the output parameters describe a window that is the
  first position of the tour or fits the budget. \<open>dom_inv\<close>: the recorded value is at
  least the value of every window shorter than \<open>L\<close> that starts before \<^verbatim>\<open>it_l\<close>, and of
  every window from \<^verbatim>\<open>it_l\<close> that ends before \<^verbatim>\<open>it_r\<close>. \<open>dominated\<close>: it is at least the
  value of every window shorter than \<open>L\<close>.
\<close>

definition recorded :: "tsp_cs \<Rightarrow> nat list \<Rightarrow> real \<Rightarrow> search_state \<Rightarrow> nat \<Rightarrow> nat \<Rightarrow> bool" where
  "recorded P cs L s a b =
     (retval_p s = Num (value_offset P cs + scanned_value P a b)
      \<and> retval_l s = Num (L - window_length P cs a b)
      \<and> retval_it_l s = a mod n_cities P \<and> retval_it_r s = b mod n_cities P)"

definition shape_inv :: "tsp_cs \<Rightarrow> nat list \<Rightarrow> real \<Rightarrow> search_state \<Rightarrow> bool" where
  "shape_inv P cs L s =
     (it_l s \<le> it_r s \<and> it_r s \<le> it_l s + n_cities P \<and> it_l s \<le> n_cities P
      \<and> (cond_r s \<longrightarrow> it_r s < it_l s + n_cities P)
      \<and> cum_p s = Num (value_offset P cs + scanned_value P (it_l s) (it_r s))
      \<and> saved_length s = Num (L - window_length P cs (it_l s) (it_r s))
      \<and> value_offset P cs + scanned_value P 0 0 \<le> num (retval_p s)
      \<and> (\<exists>a b. a \<le> b \<and> b < a + n_cities P \<and> a \<le> n_cities P \<and> recorded P cs L s a b
             \<and> (a = 0 \<and> b = 0 \<or> window_length P cs a b \<le> L)))"

definition dom_inv :: "tsp_cs \<Rightarrow> nat list \<Rightarrow> real \<Rightarrow> search_state \<Rightarrow> bool" where
  "dom_inv P cs L s =
     ((\<forall>a b. a < it_l s \<longrightarrow> a \<le> b \<longrightarrow> b < a + n_cities P \<longrightarrow> window_length P cs a b < L
          \<longrightarrow> value_offset P cs + scanned_value P a b \<le> num (retval_p s))
      \<and> (\<forall>b. it_l s \<le> b \<longrightarrow> b < it_r s
          \<longrightarrow> value_offset P cs + scanned_value P (it_l s) b \<le> num (retval_p s))
      \<and> (cond_r s
          \<longrightarrow> value_offset P cs + scanned_value P (it_l s) (it_r s) \<le> num (retval_p s))
      \<and> (\<not> cond_r s
          \<longrightarrow> (L \<le> window_length P cs (it_l s) (it_r s) \<and> it_r s < it_l s + n_cities P)
              \<or> (it_r s = it_l s + n_cities P
                  \<and> value_offset P cs + scanned_value P (it_l s) (it_r s - 1)
                      \<le> num (retval_p s))))"

definition dominated :: "tsp_cs \<Rightarrow> nat list \<Rightarrow> real \<Rightarrow> search_state \<Rightarrow> bool" where
  "dominated P cs L s =
     (\<forall>a b. a < n_cities P \<longrightarrow> a \<le> b \<longrightarrow> b < a + n_cities P \<longrightarrow> window_length P cs a b < L
          \<longrightarrow> value_offset P cs + scanned_value P a b \<le> num (retval_p s))"

subsection \<open>Runs without rounding\<close>

text \<open>
  The finite numbers of the binary64 format: the products of an integer below \<open>2 ^ 53\<close>
  in magnitude and a power of two with an exponent from \<open>- 1074\<close> to \<open>971\<close>. An
  addition or subtraction of two doubles whose exact result is such a number returns it.
\<close>

definition binary64 :: "real \<Rightarrow> bool" where
  "binary64 x = (\<exists>m e :: int. \<bar>m\<bar> < 2 ^ 53 \<and> - 1074 \<le> e \<and> e \<le> 971
                    \<and> x = of_int m * 2 powr of_int e)"

text \<open>
  The multiples of a power of two, and the instances on which the search does not round:
  the values, the weights and the budget \<open>L\<close> are integer multiples of one unit
  \<open>2 powr e\<close>, the values sum to less than \<open>2 ^ 51\<close> units, and the edges of the whole
  tour and the magnitude of the budget to less than \<open>2 ^ 52\<close> units each.
\<close>

definition grid_unit :: "int \<Rightarrow> real" where
  "grid_unit e = 2 powr of_int e"

definition on_grid :: "int \<Rightarrow> real \<Rightarrow> bool" where
  "on_grid e x = (x / grid_unit e \<in> \<int>)"

definition exact_instance :: "int \<Rightarrow> tsp_cs \<Rightarrow> nat list \<Rightarrow> real \<Rightarrow> bool" where
  "exact_instance e P cs L =
     (- 1074 \<le> e \<and> e \<le> 971
      \<and> list_all (\<lambda>v. on_grid e (num v)) (m_values P)
      \<and> list_all (list_all (\<lambda>w. on_grid e (num w))) (m_weights P)
      \<and> on_grid e L
      \<and> sum_list (map num (m_values P)) < 2 ^ 51 * grid_unit e
      \<and> window_length P cs 0 (n_cities P) < 2 ^ 52 * grid_unit e
      \<and> \<bar>L\<bar> < 2 ^ 52 * grid_unit e)"

text \<open>
  The states that the two loops of \<^verbatim>\<open>find_city_subsequence\<close> pass through: the state
  before the outer loop, the state after a pass of the inner loop, and the state after
  the rest of a pass of the outer loop, which runs once the inner loop has stopped.
\<close>

inductive visited :: "tsp_cs \<Rightarrow> nat list \<Rightarrow> search_state \<Rightarrow> bool" for P cs where
  start: "visited P cs (init_state P cs)"
| right: "visited P cs s \<Longrightarrow> cond_l s \<Longrightarrow> cond_r s \<Longrightarrow> visited P cs (extend_right P cs s)"
| left: "visited P cs s \<Longrightarrow> cond_l s \<Longrightarrow> \<not> cond_r s \<Longrightarrow> visited P cs (advance_left P cs s)"

code_pred visited .

subsection \<open>Calls of the two evaluation functions\<close>

text \<open>
  A call of \<^verbatim>\<open>objfun_impl\<close> or of \<^verbatim>\<open>compute_constraints_impl\<close> on an instance. The state of
  the call is the instance and the output vector, and the call returns the state it
  leaves. Both member functions are declared \<^verbatim>\<open>const\<close> and assign to their output
  parameter and to local variables only.
\<close>

definition objfun_impl_call ::
  "(double list \<Rightarrow> double list) \<Rightarrow> (double list \<Rightarrow> double list) \<Rightarrow> tsp_cs \<times> double list \<Rightarrow>
     double list \<Rightarrow> (error + tsp_cs \<times> double list) option" where
  "objfun_impl_call full2cities randomkeys2cities st x =
     (case objfun_impl full2cities randomkeys2cities (fst st) (snd st) x of
        None \<Rightarrow> None
      | Some (Inl e) \<Rightarrow> Some (Inl e)
      | Some (Inr f') \<Rightarrow> Some (Inr (fst st, f')))"

definition compute_constraints_impl_call ::
  "tsp_cs \<times> double list \<Rightarrow> double list \<Rightarrow> error + tsp_cs \<times> double list" where
  "compute_constraints_impl_call st x =
     (case compute_constraints_impl (fst st) (snd st) x of
        Inl e \<Rightarrow> Inl e
      | Inr c' \<Rightarrow> Inr (fst st, c'))"

text \<open>The sums of a row and of a column of arc variables that the loop over \<open>j\<close>
  accumulates in \<open>c[i]\<close> and \<open>c[i + n]\<close>.\<close>

definition row_sum :: "nat \<Rightarrow> double list \<Rightarrow> nat \<Rightarrow> nat list \<Rightarrow> double \<Rightarrow> double" where
  "row_sum n x i js a = fold (\<lambda>j a. if i = j then a else dadd a (x ! compute_idx i j n)) js a"

definition col_sum :: "nat \<Rightarrow> double list \<Rightarrow> nat \<Rightarrow> nat list \<Rightarrow> double \<Rightarrow> double" where
  "col_sum n x i js a = fold (\<lambda>j a. if i = j then a else dadd a (x ! compute_idx j i n)) js a"

text \<open>Two output vectors of the same length that hold the same entries outside the
  positions in \<open>S\<close>.\<close>

definition agree :: "nat set \<Rightarrow> double list \<Rightarrow> double list \<Rightarrow> bool" where
  "agree S c1 c2 = (length c1 = length c2 \<and> (\<forall>k<length c1. k \<notin> S \<longrightarrow> c1 ! k = c2 ! k))"

section \<open>Validation of the weight matrix\<close>

lemma deq_Num_zero: "deq x (Num 0) = (x = Num 0)"
  by (cases x) auto

lemma nan_test_dead: "\<not> lnot x \<Longrightarrow> \<not> deq (of_bool_d (lnot x)) x"
  by (cases x) (auto simp: lnot_def to_bool_def dne_def of_bool_d_def)

lemma check_cell_ok:
  "check_cell i j x = Inr () \<longleftrightarrow> (if i = j then x = Num 0 else x \<noteq> Num 0)"
  using nan_test_dead [of x]
  by (auto simp: check_cell_def dne_def lnot_def to_bool_def deq_Num_zero)

lemma check_cells_ok:
  "check_cells i j xs = Inr () \<longleftrightarrow> (\<forall>k<length xs. check_cell i (j + k) (xs ! k) = Inr ())"
proof (induction xs arbitrary: j)
  case Nil
  then show ?case by simp
next
  case (Cons x xs)
  show ?case
  proof (cases "check_cell i j x")
    case (Inl e)
    then have "\<not> (\<forall>k<length (x # xs). check_cell i (j + k) ((x # xs) ! k) = Inr ())"
      by (auto intro: exI [of _ 0])
    with Inl show ?thesis by simp
  next
    case (Inr u)
    have "(\<forall>k<length (x # xs). check_cell i (j + k) ((x # xs) ! k) = Inr ())
          \<longleftrightarrow> (\<forall>k<length xs. check_cell i (Suc j + k) (xs ! k) = Inr ())"
      using Inr by (auto simp: less_Suc_eq_0_disj)
    with Inr Cons.IH [of "Suc j"] show ?thesis by simp
  qed
qed

lemma check_rows_ok:
  "check_rows n i rows = Inr () \<longleftrightarrow>
     (\<forall>k<length rows. length (rows ! k) = n \<and> check_cells (i + k) 0 (rows ! k) = Inr ())"
proof (induction rows arbitrary: i)
  case Nil
  then show ?case by simp
next
  case (Cons row rows)
  have split: "\<And>Q. (\<forall>k<length (row # rows). Q k) \<longleftrightarrow> Q 0 \<and> (\<forall>k<length rows. Q (Suc k))"
    by (auto simp: less_Suc_eq_0_disj)
  show ?case
    unfolding split
    using Cons.IH [of "Suc i"]
    by (cases "check_cells i 0 row") auto
qed

text \<open>What the validator accepts: the square matrices with a zero diagonal whose other
  entries differ from zero. Nothing is asked of the sign of an entry, and NaN differs
  from zero.\<close>

lemma check_weights_accepts_iff:
  "check_weights m = Inr () \<longleftrightarrow>
     (\<forall>i<length m. length (m ! i) = length m \<and>
        (\<forall>j<length m. if i = j then m ! i ! j = Num 0 else m ! i ! j \<noteq> Num 0))"
  unfolding check_weights_def check_rows_ok check_cells_ok check_cell_ok
  by auto

section \<open>The cached minimum value\<close>

text \<open>The constructor caches the first entry of the value vector: \<^verbatim>\<open>std::min\<close> compares
  the two iterators, not the values they point to, and \<^verbatim>\<open>begin()\<close> is never after
  \<^verbatim>\<open>end()\<close>.\<close>

lemma min_value_is_first:
  assumes "tsp_cs_new weights vals L enc = Inr P"
  shows "vals \<noteq> [] \<and> m_min_value P = vals ! 0"
  using assms
  by (auto simp: tsp_cs_new_def deref_def std_min_def split: sum.splits if_splits)

text \<open>
  C2. The claim: for every weights/values pair accepted at construction, \<^verbatim>\<open>m_min_value\<close>
  is the minimum element of the value vector. The constructor accepts the two cities
  with weights \<open>[[0, 1], [1, 0]]\<close> and values \<open>[2, 1]\<close>, and caches \<open>2\<close>, the first
  value, where the minimum is \<open>1\<close>.
\<close>

theorem min_value_not_minimum:
  "tsp_cs_new [[Num 0, Num 1], [Num 1, Num 0]] [Num 2, Num 1] (Num 1) CITIES =
     Inr \<lparr>n_cities = 2, encoding = CITIES, m_weights = [[Num 0, Num 1], [Num 1, Num 0]],
          m_values = [Num 2, Num 1], m_max_path_length = Num 1, m_min_value = Num 2\<rparr>"
  by (simp add: tsp_cs_new_def check_weights_def check_cell_def dne_def lnot_def to_bool_def
      of_bool_d_def deref_def std_min_def)

section \<open>NaN weights\<close>

text \<open>
  C3. The claim: the validator accepts a matrix if and only if it is square, has a zero
  diagonal and every other entry is neither zero nor NaN; a matrix with a NaN entry off
  the diagonal is refused. The third test of \<^verbatim>\<open>check_weights\<close> never fires
  (\<open>nan_test_dead\<close>), so the validator accepts the matrix \<open>[[0, NaN], [1, 0]]\<close>.
\<close>

theorem check_weights_accepts_nan:
  "check_weights [[Num 0, NaN], [Num 1, Num 0]] = Inr ()"
  by (simp add: check_weights_def check_cell_def dne_def lnot_def to_bool_def of_bool_d_def)

section \<open>The default instance\<close>

lemmas search_eval =
  find_city_subsequence_def cities_of_def vectors_sized_def to_index_def init_state_def
  outer_loop.simps inner_loop.simps extend_right_def advance_left_def update_retvals_def
  record_retvals_def edge_def dsub_def dgreater_def Let_def

lemma default_subsequence:
  "find_city_subsequence tsp_cs_default [Num 0, Num 1, Num 2]
     = Some (Inr (Num 2, Num 0, 0, 1))"
  by (simp add: search_eval tsp_cs_default_def)

lemma default_subsequence_cities:
  "find_city_subsequence (tsp_cs_default\<lparr>encoding := CITIES\<rparr>) [Num 0, Num 1, Num 2]
     = Some (Inr (Num 2, Num 0, 0, 1))"
  by (simp add: search_eval tsp_cs_default_def)

text \<open>
  C5. On the default instance of three cities and the tour \<open>[0, 1, 2]\<close>, the search
  returns the value \<open>2\<close> and the remaining budget \<open>0\<close>: the window of the tour positions
  \<open>0\<close> and \<open>1\<close>. The fitness that \<^verbatim>\<open>objfun_impl\<close> stores is
  \<open>- (2 + (1 - 1) * 3 + 0 / 1) = - 2\<close>, whatever the fitness vector held before: under
  the RANDOMKEYS encoding of the default instance when the decoder of the base class
  yields this tour, and under the CITIES encoding, where the chromosome is the tour.
\<close>

theorem default_instance_fitness:
  "find_city_subsequence tsp_cs_default [Num 0, Num 1, Num 2]
     = Some (Inr (Num 2, Num 0, 0, 1))
   \<and> objfun_impl full2cities (\<lambda>x. [Num 0, Num 1, Num 2]) tsp_cs_default [y] x
       = Some (Inr [fitness_value tsp_cs_default (Num 2) (Num 0)])
   \<and> objfun_impl full2cities randomkeys2cities (tsp_cs_default\<lparr>encoding := CITIES\<rparr>) [y]
         [Num 0, Num 1, Num 2]
       = Some (Inr [fitness_value tsp_cs_default (Num 2) (Num 0)])
   \<and> fitness_value tsp_cs_default (Num 2) (Num 0) = Num (- (2 + (1 - 1) * 3 + 0 / 1))
   \<and> fitness_value tsp_cs_default (Num 2) (Num 0) = Num (- 2)"
proof -
  have fit: "fitness_value (tsp_cs_default\<lparr>encoding := CITIES\<rparr>) = fitness_value tsp_cs_default"
    by (simp add: fitness_value_def fun_eq_iff)
  have enc: "encoding tsp_cs_default = RANDOMKEYS"
    by (simp add: tsp_cs_default_def)
  have v: "fitness_value tsp_cs_default (Num 2) (Num 0) = Num (- 2)"
    by (simp add: fitness_value_def tsp_cs_default_def dsub_def of_size_def)
  have a: "objfun_impl full2cities (\<lambda>x. [Num 0, Num 1, Num 2]) tsp_cs_default [y] x
       = Some (Inr [fitness_value tsp_cs_default (Num 2) (Num 0)])"
    unfolding objfun_impl_def decode_tour_def
    by (simp add: enc default_subsequence)
  have b: "objfun_impl full2cities randomkeys2cities (tsp_cs_default\<lparr>encoding := CITIES\<rparr>) [y]
         [Num 0, Num 1, Num 2]
       = Some (Inr [fitness_value tsp_cs_default (Num 2) (Num 0)])"
    unfolding objfun_impl_def decode_tour_def
    by (simp add: default_subsequence_cities fit)
  show ?thesis using a b v default_subsequence by simp
qed

section \<open>The index of an arc\<close>

lemma compute_idx_alt:
  assumes "i \<noteq> j" "i < n" "j < n"
  shows "compute_idx i j n = i * (n - 1) + (if j > i then j - 1 else j)"
    and "(if j > i then j - 1 else j) < n - 1"
  using assms by (auto simp: compute_idx_def)

lemma compute_idx_div:
  assumes "i \<noteq> j" "i < n" "j < n"
  shows "compute_idx i j n div (n - 1) = i"
    and "compute_idx i j n mod (n - 1) = (if j > i then j - 1 else j)"
  using compute_idx_alt [OF assms] by simp_all

lemma compute_idx_inj:
  assumes "i \<noteq> j" "i < n" "j < n" "i' \<noteq> j'" "i' < n" "j' < n"
    and eq: "compute_idx i j n = compute_idx i' j' n"
  shows "i = i' \<and> j = j'"
proof -
  have i: "i = i'"
    using compute_idx_div(1) [OF assms(1-3)] compute_idx_div(1) [OF assms(4-6)] eq by simp
  have "(if j > i then j - 1 else j) = (if j' > i' then j' - 1 else j')"
    using compute_idx_div(2) [OF assms(1-3)] compute_idx_div(2) [OF assms(4-6)] eq by simp
  with i assms(1,4) show ?thesis by (auto split: if_splits)
qed

lemma compute_idx_less:
  assumes "i \<noteq> j" "i < n" "j < n"
  shows "compute_idx i j n < n * (n - 1)"
proof -
  have "compute_idx i j n < i * (n - 1) + (n - 1)"
    using compute_idx_alt [OF assms] by simp
  also have "\<dots> = (i + 1) * (n - 1)" by simp
  also have "\<dots> \<le> n * (n - 1)" using assms(2) by (intro mult_le_mono1) simp
  finally show ?thesis .
qed

lemma compute_idx_surj:
  assumes "k < n * (n - 1)"
  shows "\<exists>i j. i \<noteq> j \<and> i < n \<and> j < n \<and> compute_idx i j n = k"
proof -
  have n: "2 \<le> n"
  proof (rule ccontr)
    assume "\<not> 2 \<le> n"
    then have "n - 1 = 0" by simp
    with assms show False by simp
  qed
  define i where "i = k div (n - 1)"
  define r where "r = k mod (n - 1)"
  define j where "j = (if r \<ge> i then r + 1 else r)"
  have i: "i < n" using assms n unfolding i_def
    by (simp add: less_mult_imp_div_less)
  have r: "r < n - 1" using n unfolding r_def by simp
  have j: "j < n" "i \<noteq> j" using r i unfolding j_def by auto
  have "compute_idx i j n = i * (n - 1) + r"
    unfolding compute_idx_def j_def by auto
  also have "\<dots> = k" unfolding i_def r_def by (simp add: div_mult_mod_eq)
  finally show ?thesis using i j by blast
qed

text \<open>The arithmetic of the source on 64-bit words agrees with the arithmetic on the
  natural numbers.\<close>

lemma compute_idx_intermediate:
  assumes "i \<noteq> j" "i < n" "j < (n::nat)"
  shows "i * (n - 1) + j < n * (n - 1)"
proof (cases "i = n - 1")
  case True
  with assms have "j < n - 1" by simp
  then have "i * (n - 1) + j < i * (n - 1) + (n - 1)" by simp
  also have "\<dots> = (i + 1) * (n - 1)" by simp
  also have "\<dots> = n * (n - 1)" using True assms(2) by simp
  finally show ?thesis .
next
  case False
  with assms(2) have i: "i + 2 \<le> n" by simp
  have "i * (n - 1) + j < i * (n - 1) + n" using assms(3) by simp
  also have "\<dots> \<le> i * (n - 1) + 2 * (n - 1)" using i by simp
  also have "\<dots> = (i + 2) * (n - 1)" by (simp only: add_mult_distrib)
  also have "\<dots> \<le> n * (n - 1)" using i by (intro mult_le_mono1)
  finally show ?thesis .
qed

lemma compute_idx_size_t_nat:
  assumes ij: "i \<noteq> j" "i < n" "j < n" and fits: "unat n * (unat n - 1) < 2 ^ 64"
  shows "unat (compute_idx_size_t i j n) = compute_idx (unat i) (unat j) (unat n)"
proof -
  have "unat i \<noteq> unat j" using ij(1) word_unat_eq_iff [of i j] by blast
  moreover from ij(2,3) have "unat i < unat n" "unat j < unat n"
    by (simp_all only: word_less_nat_alt)
  ultimately have nat: "unat i \<noteq> unat j" "unat i < unat n" "unat j < unat n" .
  from ij(2) have "n \<noteq> 0" by (metis word_not_simps(1))
  then have n1: "unat (n - 1) = unat n - 1" by (rule unat_minus_one)
  from compute_idx_intermediate [OF nat] fits
  have bound: "unat i * (unat n - 1) + unat j < 2 ^ 64" by simp
  then have "unat i * unat (n - 1) < 2 ^ LENGTH(64)" by (simp add: n1)
  then have m: "unat (i * (n - 1)) = unat i * (unat n - 1)"
    by (simp add: unat_mult_lem [THEN iffD1] n1)
  from bound have "unat (i * (n - 1)) + unat j < 2 ^ LENGTH(64)" by (simp add: m)
  then have a: "unat (i * (n - 1) + j) = unat i * (unat n - 1) + unat j"
    by (simp add: unat_add_lem [THEN iffD1] m)
  show ?thesis
  proof (cases "i < j")
    case True
    then have lt: "unat i < unat j" by (simp add: word_less_nat_alt)
    then have "1 \<le> unat (i * (n - 1) + j)" unfolding a by simp
    then have "(1::64 word) \<le> i * (n - 1) + j" by (simp add: word_le_nat_alt)
    from unat_sub [OF this] True lt show ?thesis
      by (simp add: compute_idx_size_t_def compute_idx_def a)
  next
    case False
    then have "\<not> unat i < unat j" by (simp add: word_less_nat_alt)
    with False show ?thesis by (simp add: compute_idx_size_t_def compute_idx_def a)
  qed
qed

lemma arcs_product:
  "concat (map (\<lambda>i. map (\<lambda>j. (i, j)) (filter (\<lambda>j. i \<noteq> j) ys)) xs)
     = filter (\<lambda>a. fst a \<noteq> snd a) (List.product xs ys)"
  by (induction xs) (simp_all add: filter_map comp_def)

lemma distinct_arcs: "distinct (arcs lo n)"
  unfolding arcs_def arcs_product by (simp add: distinct_product)

lemma set_arcs: "set (arcs lo n) = {(i, j). i \<noteq> j \<and> lo \<le> i \<and> i < n \<and> lo \<le> j \<and> j < n}"
  unfolding arcs_def arcs_product by auto

text \<open>
  C10. For \<open>2 \<le> n\<close>, \<^verbatim>\<open>compute_idx\<close> is injective on the ordered pairs \<open>(i, j)\<close> of
  distinct cities, and its image is the interval from \<open>0\<close> to \<open>n * (n - 1) - 1\<close>. Hence
  the indices that the loops of the FULL constraints read, over the pairs from city \<open>0\<close>
  (degree constraints) and over the pairs from city \<open>1\<close> (subtour elimination), are
  pairwise distinct and in range.
\<close>

theorem compute_idx_bijection:
  assumes "2 \<le> n"
  shows "inj_on (\<lambda>(i, j). compute_idx i j n) (arc_set n)
       \<and> (\<lambda>(i, j). compute_idx i j n) ` arc_set n = {0..<n * (n - 1)}
       \<and> distinct (map (\<lambda>(i, j). compute_idx i j n) (arcs 0 n))
       \<and> distinct (map (\<lambda>(i, j). compute_idx i j n) (arcs 1 n))
       \<and> list_all (\<lambda>(i, j). compute_idx i j n < n * (n - 1)) (arcs 0 n)
       \<and> list_all (\<lambda>(i, j). compute_idx i j n < n * (n - 1)) (arcs 1 n)"
proof -
  have inj: "inj_on (\<lambda>(i, j). compute_idx i j n) (arc_set n)"
  proof (rule inj_onI)
    fix a b
    assume a: "a \<in> arc_set n" and b: "b \<in> arc_set n"
      and eq: "(case a of (i, j) \<Rightarrow> compute_idx i j n) = (case b of (i, j) \<Rightarrow> compute_idx i j n)"
    obtain i j where ij: "a = (i, j)" by (cases a)
    obtain i' j' where ij': "b = (i', j')" by (cases b)
    from a ij have 1: "i \<noteq> j" "i < n" "j < n" by (simp_all add: arc_set_def)
    from b ij' have 2: "i' \<noteq> j'" "i' < n" "j' < n" by (simp_all add: arc_set_def)
    from eq ij ij' have "compute_idx i j n = compute_idx i' j' n" by simp
    from compute_idx_inj [OF 1 2 this] ij ij' show "a = b" by simp
  qed
  have img: "(\<lambda>(i, j). compute_idx i j n) ` arc_set n = {0..<n * (n - 1)}"
  proof (intro equalityI subsetI)
    fix k assume "k \<in> (\<lambda>(i, j). compute_idx i j n) ` arc_set n"
    then obtain i j where "k = compute_idx i j n" "i \<noteq> j" "i < n" "j < n"
      unfolding arc_set_def by auto
    then show "k \<in> {0..<n * (n - 1)}"
      using compute_idx_less by simp
  next
    fix k assume "k \<in> {0..<n * (n - 1)}"
    then have "k < n * (n - 1)" by simp
    from compute_idx_surj [OF this] obtain i j
      where "i \<noteq> j" "i < n" "j < n" "compute_idx i j n = k" by blast
    then have "(i, j) \<in> arc_set n" "k = (\<lambda>(i, j). compute_idx i j n) (i, j)"
      by (auto simp: arc_set_def)
    then show "k \<in> (\<lambda>(i, j). compute_idx i j n) ` arc_set n" by blast
  qed
  have sub: "set (arcs lo n) \<subseteq> arc_set n" for lo
    unfolding set_arcs arc_set_def by auto
  have d: "distinct (map (\<lambda>(i, j). compute_idx i j n) (arcs lo n))" for lo
    by (simp add: distinct_map distinct_arcs inj_on_subset [OF inj sub])
  have r: "list_all (\<lambda>(i, j). compute_idx i j n < n * (n - 1)) (arcs lo n)" for lo
    unfolding list_all_iff
  proof
    fix a assume "a \<in> set (arcs lo n)"
    then obtain i j where "a = (i, j)" "i \<noteq> j" "i < n" "j < n"
      unfolding set_arcs by auto
    then show "case a of (i, j) \<Rightarrow> compute_idx i j n < n * (n - 1)"
      using compute_idx_less by simp
  qed
  show ?thesis using inj img d r by blast
qed

theorem compute_idx_bijection_witness:
  "inj_on (\<lambda>(i, j). compute_idx i j 3) (arc_set 3)
       \<and> (\<lambda>(i, j). compute_idx i j 3) ` arc_set 3 = {0..<6}
       \<and> map (\<lambda>(i, j). compute_idx i j 3) (arcs 0 3) = [0, 1, 2, 3, 4, 5]
       \<and> map (\<lambda>(i, j). compute_idx i j 3) (arcs 1 3) = [3, 5]"
proof -
  have "(2::nat) \<le> 3" by simp
  from compute_idx_bijection [OF this]
  have "inj_on (\<lambda>(i, j). compute_idx i j 3) (arc_set 3)"
    and "(\<lambda>(i, j). compute_idx i j 3) ` arc_set 3 = {0..<6}" by simp_all
  moreover have "map (\<lambda>(i, j). compute_idx i j 3) (arcs 0 3) = [0, 1, 2, 3, 4, 5]"
    by (simp add: arcs_def compute_idx_def upt_rec)
  moreover have "map (\<lambda>(i, j). compute_idx i j 3) (arcs 1 3) = [3, 5]"
    by (simp add: arcs_def compute_idx_def upt_rec)
  ultimately show ?thesis by blast
qed

section \<open>Well-formed instances\<close>

text \<open>Both constructors build an instance whose vectors have one entry, and whose matrix
  has one row of \<open>n_cities\<close> entries, for each city.\<close>

lemma vectors_sized_new:
  assumes "tsp_cs_new weights vals L enc = Inr P"
  shows "vectors_sized P" and "1 \<le> n_cities P"
    and "check_weights (m_weights P) = Inr ()"
proof -
  from assms have cw: "check_weights weights = Inr ()"
    and len: "length weights = length vals" and ne: "vals \<noteq> []"
    and P: "m_weights P = weights" "m_values P = vals" "n_cities P = length weights"
    by (auto simp: tsp_cs_new_def deref_def std_min_def split: sum.splits if_splits)
  from cw have "\<forall>i<length weights. length (weights ! i) = length weights"
    unfolding check_weights_accepts_iff by blast
  then have "list_all (\<lambda>row. length row = length weights) weights"
    unfolding list_all_length by blast
  with len P show "vectors_sized P" by (simp add: vectors_sized_def)
  from len ne P show "1 \<le> n_cities P" by (cases vals) auto
  from cw P show "check_weights (m_weights P) = Inr ()" by simp
qed

lemma vectors_sized_default: "vectors_sized tsp_cs_default"
  by (simp add: vectors_sized_def tsp_cs_default_def)

section \<open>Termination of the search\<close>

lemma to_index_of_size [simp]: "to_index (of_size c) = Some c"
  by (simp add: to_index_def of_size_def)

lemma cities_of_cities:
  assumes "vectors_sized P" "1 \<le> n_cities P" "list_all (\<lambda>c. c < n_cities P) cs"
  shows "cities_of P (map of_size cs) = Some cs"
  using assms by (simp add: cities_of_def list_all_iff comp_def)

lemma update_retvals_fields [simp]:
  "it_l (update_retvals n s) = it_l s" "it_r (update_retvals n s) = it_r s"
  "cond_l (update_retvals n s) = cond_l s" "cond_r (update_retvals n s) = cond_r s"
  "cum_p (update_retvals n s) = cum_p s" "saved_length (update_retvals n s) = saved_length s"
  by (simp_all add: update_retvals_def record_retvals_def)

lemma extend_right_fields [simp]:
  "it_r (extend_right P tour s) = it_r s + 1"
  "it_l (extend_right P tour s) = it_l s"
  "cond_l (extend_right P tour s) = cond_l s"
  by (simp_all add: extend_right_def Let_def)

lemma extend_right_wrap:
  "it_l s mod n_cities P = (it_r s + 1) mod n_cities P \<Longrightarrow> \<not> cond_r (extend_right P tour s)"
  by (simp add: extend_right_def Let_def)

lemma inner_loop_steps:
  assumes "(it_r s + Suc j) mod n_cities P = it_l s mod n_cities P"
  shows "\<exists>s'. inner_loop P tour s = Some s' \<and> it_r s' \<le> it_r s + Suc j
            \<and> it_l s' = it_l s \<and> cond_l s' = cond_l s \<and> \<not> cond_r s'"
  using assms
proof (induction j arbitrary: s)
  case 0
  show ?case
  proof (cases "cond_r s")
    case False
    then show ?thesis by (subst inner_loop.simps) simp
  next
    case True
    let ?s1 = "extend_right P tour s"
    from 0 have "\<not> cond_r ?s1" by (intro extend_right_wrap) simp
    then have "inner_loop P tour ?s1 = Some ?s1" by (subst inner_loop.simps) simp
    with True have "inner_loop P tour s = Some ?s1" by (subst inner_loop.simps) simp
    with \<open>\<not> cond_r ?s1\<close> show ?thesis by simp
  qed
next
  case (Suc j)
  show ?case
  proof (cases "cond_r s")
    case False
    then show ?thesis by (subst inner_loop.simps) simp
  next
    case True
    let ?s1 = "extend_right P tour s"
    from Suc.prems have "(it_r ?s1 + Suc j) mod n_cities P = it_l ?s1 mod n_cities P" by simp
    from Suc.IH [OF this] obtain s' where s': "inner_loop P tour ?s1 = Some s'"
      "it_r s' \<le> it_r ?s1 + Suc j" "it_l s' = it_l ?s1" "cond_l s' = cond_l ?s1" "\<not> cond_r s'"
      by blast
    from True s'(1) have "inner_loop P tour s = Some s'" by (subst inner_loop.simps) simp
    with s' show ?thesis by simp
  qed
qed

lemma ex_wrap_step:
  assumes "0 < (n::nat)"
  shows "\<exists>j<n. (a + Suc j) mod n = b mod n"
proof -
  define r where "r = a mod n"
  define c where "c = b mod n"
  have rc: "r < n" "c < n" using assms by (simp_all add: r_def c_def)
  have eq: "(a + k) mod n = (r + k) mod n" for k
    unfolding r_def by (simp add: mod_add_left_eq)
  show ?thesis
  proof (cases "r < c")
    case True
    then have "(r + Suc (c - r - 1)) mod n = c" using rc by simp
    moreover have "c - r - 1 < n" using rc by simp
    ultimately show ?thesis unfolding c_def [symmetric] eq by blast
  next
    case False
    then have "r + Suc (n - r + c - 1) = n + c" using rc by simp
    then have "(r + Suc (n - r + c - 1)) mod n = c" using rc by simp
    moreover have "n - r + c - 1 < n" using rc False by simp
    ultimately show ?thesis unfolding c_def [symmetric] eq by blast
  qed
qed

lemma inner_loop_terminates:
  assumes "0 < n_cities P"
  shows "\<exists>s'. inner_loop P tour s = Some s' \<and> it_r s' \<le> it_r s + n_cities P
            \<and> it_l s' = it_l s \<and> cond_l s' = cond_l s \<and> \<not> cond_r s'"
proof -
  from ex_wrap_step [OF assms, of "it_r s" "it_l s"] obtain j
    where j: "j < n_cities P" "(it_r s + Suc j) mod n_cities P = it_l s mod n_cities P" by blast
  from inner_loop_steps [OF j(2), of tour] j(1) show ?thesis
    by (metis Suc_leI add_le_cancel_left le_trans)
qed

lemma advance_left_cases:
  assumes "it_l s < n_cities P"
  shows "(\<not> cond_l (advance_left P tour s) \<and> it_l (advance_left P tour s) \<le> n_cities P)
       \<or> (cond_l (advance_left P tour s) = cond_l s \<and> it_l (advance_left P tour s) = it_l s + 1
            \<and> it_l s + 1 < n_cities P)"
  using assms by (auto simp: advance_left_def Let_def)

lemma outer_loop_terminates:
  assumes "0 < n_cities P" "cond_l s \<longrightarrow> it_l s < n_cities P" "it_l s \<le> n_cities P"
  shows "\<exists>s'. outer_loop P tour s = Some s' \<and> it_l s' \<le> n_cities P \<and> \<not> cond_l s'"
  using assms(2,3)
proof (induction "n_cities P - it_l s" arbitrary: s rule: less_induct)
  case less
  show ?case
  proof (cases "cond_l s")
    case False
    with less.prems show ?thesis by (subst outer_loop.simps) simp
  next
    case True
    with less.prems have lt: "it_l s < n_cities P" by simp
    from inner_loop_terminates [OF assms(1), of tour s] obtain s1
      where s1: "inner_loop P tour s = Some s1" "it_l s1 = it_l s" "cond_l s1 = cond_l s"
      by blast
    let ?s2 = "advance_left P tour s1"
    have unfold: "outer_loop P tour s = outer_loop P tour ?s2"
      using True s1(1) by (subst outer_loop.simps) simp
    from advance_left_cases [of s1 P tour] lt s1(2)
    consider "\<not> cond_l ?s2" "it_l ?s2 \<le> n_cities P"
      | "cond_l ?s2" "it_l ?s2 = it_l s + 1" "it_l s + 1 < n_cities P"
      using True s1(3) by auto
    then show ?thesis
    proof cases
      case 1
      then have "outer_loop P tour ?s2 = Some ?s2" by (subst outer_loop.simps) simp
      with 1 unfold show ?thesis by simp
    next
      case 2
      then have "n_cities P - it_l ?s2 < n_cities P - it_l s" by simp
      from less.hyps [OF this] 2 unfold show ?thesis by simp
    qed
  qed
qed

text \<open>
  C9. For an instance with at least one city and a tour of \<open>n_cities\<close> entries that are
  all cities of the instance, \<^verbatim>\<open>find_city_subsequence\<close> returns. From any state the inner
  loop stops after it has advanced \<^verbatim>\<open>it_r\<close> by at most \<open>n_cities\<close> positions, with the
  left boundary unchanged; the outer loop, which starts with \<^verbatim>\<open>it_l = 0\<close> and advances it
  by one position at a time, stops with \<^verbatim>\<open>cond_l\<close> false and \<^verbatim>\<open>it_l\<close> at most \<open>n_cities\<close>.
\<close>

theorem find_city_subsequence_terminates:
  assumes "vectors_sized P" and "1 \<le> n_cities P"
    and "length cs = n_cities P" and "list_all (\<lambda>c. c < n_cities P) cs"
  shows "(\<forall>s. \<exists>s'. inner_loop P cs s = Some s' \<and> it_r s' \<le> it_r s + n_cities P
              \<and> it_l s' = it_l s \<and> \<not> cond_r s')
       \<and> (\<exists>s'. outer_loop P cs (init_state P cs) = Some s' \<and> it_l s' \<le> n_cities P
              \<and> \<not> cond_l s')
       \<and> (\<exists>res. find_city_subsequence P (map of_size cs) = Some (Inr res))"
proof -
  from assms(2) have n: "0 < n_cities P" by simp
  have inner: "\<forall>s. \<exists>s'. inner_loop P cs s = Some s' \<and> it_r s' \<le> it_r s + n_cities P
              \<and> it_l s' = it_l s \<and> \<not> cond_r s'"
    using inner_loop_terminates [OF n, of cs] by blast
  have "\<exists>s'. outer_loop P cs (init_state P cs) = Some s' \<and> it_l s' \<le> n_cities P
              \<and> \<not> cond_l s'"
    using n by (intro outer_loop_terminates) (simp_all add: init_state_def)
  then obtain s' where s': "outer_loop P cs (init_state P cs) = Some s'"
    "it_l s' \<le> n_cities P" "\<not> cond_l s'" by blast
  have "find_city_subsequence P (map of_size cs)
          = Some (Inr (retval_p s', retval_l s', retval_it_l s', retval_it_r s'))"
    using assms(3) cities_of_cities [OF assms(1,2,4)] s'(1)
    by (simp add: find_city_subsequence_def)
  with inner s' show ?thesis by blast
qed

theorem find_city_subsequence_terminates_witness:
  "vectors_sized tsp_cs_default \<and> 1 \<le> n_cities tsp_cs_default
   \<and> length [0, 1, 2 :: nat] = n_cities tsp_cs_default
   \<and> list_all (\<lambda>c. c < n_cities tsp_cs_default) [0, 1, 2]
   \<and> (\<forall>s. \<exists>s'. inner_loop tsp_cs_default [0, 1, 2] s = Some s'
           \<and> it_r s' \<le> it_r s + n_cities tsp_cs_default \<and> it_l s' = it_l s \<and> \<not> cond_r s')
   \<and> (\<exists>s'. outer_loop tsp_cs_default [0, 1, 2] (init_state tsp_cs_default [0, 1, 2]) = Some s'
           \<and> it_l s' \<le> n_cities tsp_cs_default \<and> \<not> cond_l s')
   \<and> (\<exists>res. find_city_subsequence tsp_cs_default (map of_size [0, 1, 2]) = Some (Inr res))"
proof -
  have h: "vectors_sized tsp_cs_default" "1 \<le> n_cities tsp_cs_default"
    "length [0, 1, 2 :: nat] = n_cities tsp_cs_default"
    "list_all (\<lambda>c. c < n_cities tsp_cs_default) [0, 1, 2]"
    by (simp_all add: vectors_sized_default) (simp_all add: tsp_cs_default_def)
  from find_city_subsequence_terminates [OF h] h show ?thesis by blast
qed

section \<open>The permutation constraint of the CITIES encoding\<close>

lemma deq_iff: "deq x y \<longleftrightarrow> x = y \<and> x \<noteq> NaN"
  by (cases x; cases y) auto

lemma of_size_inj [simp]: "of_size a = of_size b \<longleftrightarrow> a = b"
  by (simp add: of_size_def)

lemma of_size_not_NaN [simp]: "of_size a \<noteq> NaN"
  by (simp add: of_size_def)

lemma length_filter_eq_distinct:
  assumes "distinct zs" "z \<in> set zs"
  shows "length (filter (\<lambda>x. x = z) zs) = 1"
proof -
  have "{x. x = z} \<inter> set zs = {z}" using assms(2) by auto
  with distinct_length_filter [OF assms(1), of "\<lambda>x. x = z"] show ?thesis by simp
qed

lemma length_filter_le_one_distinct:
  assumes "distinct zs"
  shows "length (filter (\<lambda>x. x = z) zs) \<le> 1"
proof (cases "z \<in> set zs")
  case True
  with length_filter_eq_distinct [OF assms] show ?thesis by simp
next
  case False
  then have "filter (\<lambda>x. x = z) zs = []" by (auto simp: filter_empty_conv)
  then show ?thesis by simp
qed

lemma matches_eq:
  "length (filter (\<lambda>y. deq (of_size y) (of_size a)) ys) = length (filter (\<lambda>y. y = a) ys)"
  by (simp add: deq_iff)

lemma scan_ok_of_perm:
  assumes d: "distinct ys" and m: "mset xs = mset (map of_size ys)" and i: "i < length xs"
  shows "scan_ok xs ys i"
proof -
  have dx: "distinct xs"
    using d m by (metis distinct_map inj_onI mset_eq_imp_distinct_iff of_size_inj)
  have "set xs = of_size ` set ys" using m by (metis mset_eq_setD set_map)
  with i obtain a where a: "a \<in> set ys" "xs ! i = of_size a"
    by (metis imageE nth_mem)
  have m1: "length (filter (\<lambda>y. deq (of_size y) (xs ! i)) ys) = 1"
    unfolding a(2) matches_eq using length_filter_eq_distinct [OF d a(1)] .
  have "filter (\<lambda>x. deq x (xs ! i)) (drop i xs) = filter (\<lambda>x. x = xs ! i) (drop i xs)"
    by (rule filter_cong) (auto simp: deq_iff a(2))
  moreover have "length (filter (\<lambda>x. x = xs ! i) (drop i xs)) = 1"
  proof (rule length_filter_eq_distinct)
    show "distinct (drop i xs)" using dx by simp
    show "xs ! i \<in> set (drop i xs)"
      using i by (metis Cons_nth_drop_Suc list.set_intros(1))
  qed
  ultimately show ?thesis
    using m1 by (simp add: scan_ok_def Let_def)
qed

lemma scan_ok_imp:
  assumes d: "distinct ys" and ok: "\<forall>i<length xs. scan_ok xs ys i" and i: "i < length xs"
  shows "xs ! i \<in> of_size ` set ys \<and> (\<forall>j<i. xs ! j \<noteq> xs ! i)"
proof -
  define s where "s = xs ! i"
  define j0 where "j0 = (LEAST j. j < length xs \<and> (xs ! j = s \<and> j \<le> i))"
  have ex: "i < length xs \<and> (xs ! i = s \<and> i \<le> i)" using i s_def by simp
  have j0: "j0 < length xs" "xs ! j0 = s" "j0 \<le> i"
    using LeastI [of "\<lambda>j. j < length xs \<and> (xs ! j = s \<and> j \<le> i)" i, OF ex]
    unfolding j0_def by simp_all
  have least: "\<And>j. j < j0 \<Longrightarrow> xs ! j \<noteq> s"
  proof
    fix j assume "j < j0" "xs ! j = s"
    then have "j < length xs \<and> (xs ! j = s \<and> j \<le> i)" using j0 by simp
    from Least_le [of "\<lambda>j. j < length xs \<and> (xs ! j = s \<and> j \<le> i)", OF this] \<open>j < j0\<close>
    show False unfolding j0_def by simp
  qed
  have unseen: "\<not> list_ex (\<lambda>x. deq x (xs ! j0)) (take j0 xs)"
  proof
    assume "list_ex (\<lambda>x. deq x (xs ! j0)) (take j0 xs)"
    then obtain x where "x \<in> set (take j0 xs)" "deq x s"
      unfolding list_ex_iff j0(2) by blast
    then obtain j where "j < j0" "xs ! j = s"
      using j0(1) by (auto simp: in_set_conv_nth deq_iff)
    with least show False by blast
  qed
  from ok j0(1) have "scan_ok xs ys j0" by blast
  with unseen have
    m: "length (filter (\<lambda>y. deq (of_size y) s) ys) \<noteq> 0"
      "length (filter (\<lambda>x. deq x s) (drop j0 xs)) = length (filter (\<lambda>y. deq (of_size y) s) ys)"
    unfolding scan_ok_def Let_def j0(2) by auto
  from m(1) obtain a where a: "a \<in> set ys" "s = of_size a"
    by (auto simp: filter_empty_conv deq_iff)
  have cnt: "length (filter (\<lambda>x. x = s) (drop j0 xs)) \<le> 1"
  proof -
    have "length (filter (\<lambda>y. deq (of_size y) s) ys) \<le> 1"
      unfolding a(2) matches_eq by (rule length_filter_le_one_distinct [OF d])
    then have "length (filter (\<lambda>x. deq x s) (drop j0 xs)) \<le> 1"
      using m(2) by simp
    moreover have "filter (\<lambda>x. deq x s) (drop j0 xs) = filter (\<lambda>x. x = s) (drop j0 xs)"
      by (rule filter_cong) (auto simp: deq_iff a(2))
    ultimately show ?thesis by simp
  qed
  have "j0 = i"
  proof (rule ccontr)
    assume "j0 \<noteq> i"
    with j0(3) have lt: "Suc j0 \<le> i" by simp
    have split: "drop j0 xs = s # drop (Suc j0) xs"
      using j0(1,2) by (metis Cons_nth_drop_Suc)
    have "drop (Suc j0) xs ! (i - Suc j0) = s" using lt i s_def by simp
    moreover have "i - Suc j0 < length (drop (Suc j0) xs)" using lt i by simp
    ultimately have "s \<in> set (drop (Suc j0) xs)" by (metis nth_mem)
    then have "filter (\<lambda>x. x = s) (drop (Suc j0) xs) \<noteq> []"
      by (simp add: filter_empty_conv)
    then have "1 \<le> length (filter (\<lambda>x. x = s) (drop (Suc j0) xs))"
      by (simp add: Suc_leI)
    with cnt show False unfolding split by simp
  qed
  with least a show ?thesis unfolding s_def by blast
qed

lemma scan_ok_iff_perm:
  assumes d: "distinct ys" and len: "length xs = length ys"
  shows "list_all (scan_ok xs ys) [0..<length xs] \<longleftrightarrow> mset xs = mset (map of_size ys)"
proof
  assume "mset xs = mset (map of_size ys)"
  from scan_ok_of_perm [OF d this] show "list_all (scan_ok xs ys) [0..<length xs]"
    by (simp add: list_all_iff)
next
  assume "list_all (scan_ok xs ys) [0..<length xs]"
  then have ok: "\<forall>i<length xs. scan_ok xs ys i" by (simp add: list_all_iff)
  have dx: "distinct xs"
    unfolding distinct_conv_nth
  proof (intro allI impI)
    fix i j assume ij: "i < length xs" "j < length xs" "i \<noteq> j"
    show "xs ! i \<noteq> xs ! j"
    proof (cases "i < j")
      case True
      with scan_ok_imp [OF d ok ij(2)] show ?thesis by blast
    next
      case False
      with ij(3) have "j < i" by simp
      with scan_ok_imp [OF d ok ij(1)] show ?thesis by metis
    qed
  qed
  have sub: "set xs \<subseteq> of_size ` set ys"
    using scan_ok_imp [OF d ok] by (auto simp: in_set_conv_nth)
  have dy: "distinct (map of_size ys)" using d by (simp add: distinct_map inj_on_def)
  have "card (set xs) = card (of_size ` set ys)"
    using distinct_card [OF dx] distinct_card [OF dy] len by simp
  with sub have "set xs = of_size ` set ys"
    by (intro card_subset_eq) simp_all
  then have "set xs = set (map of_size ys)" by simp
  then show "mset xs = mset (map of_size ys)"
    by (rule set_eq_iff_mset_eq_distinct [OF dx dy, THEN iffD1])
qed

lemma common_prefix_take:
  "take (common_prefix xs ys) xs = map of_size (take (common_prefix xs ys) ys)"
proof -
  let ?P = "\<lambda>p. deq (fst p) (of_size (snd p))"
  let ?k = "common_prefix xs ys"
  have k: "?k \<le> length (zip xs ys)" unfolding common_prefix_def by (rule length_takeWhile_le)
  then have kx: "?k \<le> length xs" and ky: "?k \<le> length ys" by simp_all
  have "\<And>j. j < ?k \<Longrightarrow> xs ! j = of_size (ys ! j)"
  proof -
    fix j assume j: "j < ?k"
    then have "takeWhile ?P (zip xs ys) ! j \<in> set (takeWhile ?P (zip xs ys))"
      unfolding common_prefix_def by (rule nth_mem)
    then have "?P (takeWhile ?P (zip xs ys) ! j)" by (rule set_takeWhileD [THEN conjunct2])
    moreover have "takeWhile ?P (zip xs ys) ! j = zip xs ys ! j"
      using j unfolding common_prefix_def by (rule takeWhile_nth)
    ultimately show "xs ! j = of_size (ys ! j)" using j k by (simp add: deq_iff)
  qed
  with kx ky show ?thesis by (simp add: list_eq_iff_nth_eq)
qed

lemma is_permutation_iff:
  assumes d: "distinct ys" and len: "length xs = length ys"
  shows "is_permutation xs ys \<longleftrightarrow> mset xs = mset (map of_size ys)"
proof -
  let ?k = "common_prefix xs ys"
  have A: "is_permutation xs ys
          \<longleftrightarrow> mset (drop ?k xs) = mset (map of_size (drop ?k ys))"
    unfolding is_permutation_def Let_def
    by (rule scan_ok_iff_perm) (use d len in simp_all)
  have X: "mset xs = mset (take ?k xs) + mset (drop ?k xs)"
    by (metis append_take_drop_id mset_append)
  have Y: "mset (map of_size ys)
             = mset (map of_size (take ?k ys)) + mset (map of_size (drop ?k ys))"
    by (metis append_take_drop_id map_append mset_append)
  have Z: "mset (take ?k xs) = mset (map of_size (take ?k ys))"
    by (simp only: common_prefix_take)
  show ?thesis unfolding A X Y Z by (rule add_left_cancel [symmetric])
qed

text \<open>
  C7. Under the CITIES encoding, for a chromosome with one entry for each city, the
  constraint vector of one entry holds \<open>0\<close> if the chromosome is a permutation of the
  cities \<open>0, \<dots>, n_cities - 1\<close> and \<open>1\<close> otherwise. On three cities, \<open>[0, 1, 2]\<close> yields
  \<open>0\<close> and \<open>[0, 0, 2]\<close> yields \<open>1\<close>.
\<close>

theorem cities_constraint:
  assumes "encoding P = CITIES" and "length x = n_cities P"
  shows "compute_constraints_impl P [y] x
           = Inr [if mset x = mset (map of_size [0..<n_cities P]) then Num 0 else Num 1]"
proof -
  have "is_permutation x [0..<n_cities P] \<longleftrightarrow> mset x = mset (map of_size [0..<n_cities P])"
    by (rule is_permutation_iff) (use assms in simp_all)
  with assms show ?thesis
    by (simp add: compute_constraints_impl_def of_bool_d_def)
qed

lemma cities_default:
  "encoding (tsp_cs_default\<lparr>encoding := CITIES\<rparr>) = CITIES"
  "n_cities (tsp_cs_default\<lparr>encoding := CITIES\<rparr>) = 3"
  by (simp_all add: tsp_cs_default_def)

lemma upt_3: "[0..<3] = [0, 1, 2]"
  by (simp add: upt_rec)

theorem cities_constraint_witness:
  "compute_constraints_impl (tsp_cs_default\<lparr>encoding := CITIES\<rparr>) [NaN] [Num 0, Num 1, Num 2]
     = Inr [Num 0]
   \<and> compute_constraints_impl (tsp_cs_default\<lparr>encoding := CITIES\<rparr>) [NaN] [Num 0, Num 0, Num 2]
     = Inr [Num 1]"
proof -
  let ?P = "tsp_cs_default\<lparr>encoding := CITIES\<rparr>"
  have a: "compute_constraints_impl ?P [NaN] [Num 0, Num 1, Num 2] = Inr [Num 0]"
    using cities_constraint [of ?P "[Num 0, Num 1, Num 2]" NaN]
    by (simp add: cities_default upt_3 of_size_def)
  have "Num 1 \<in># mset (map of_size [0, 1, 2])" by (simp add: of_size_def)
  moreover have "Num 1 \<notin># mset [Num 0, Num 0, Num 2]" by simp
  ultimately have "mset [Num 0, Num 0, Num 2] \<noteq> mset (map of_size [0, 1, 2])" by metis
  then have b: "compute_constraints_impl ?P [NaN] [Num 0, Num 0, Num 2] = Inr [Num 1]"
    using cities_constraint [of ?P "[Num 0, Num 0, Num 2]" NaN]
    by (simp add: cities_default upt_3)
  from a b show ?thesis by simp
qed

section \<open>Lengths and values of windows\<close>

lemma nonneg_num: "nonneg x \<Longrightarrow> x = Num (num x) \<and> 0 \<le> num x"
  by (cases x) (simp_all add: nonneg_def num_def)

lemma dsub_Num [simp]: "dsub (Num a) (Num b) = Num (a - b)"
  by (simp add: dsub_def)

lemma dgreater_Num [simp]: "dgreater (Num a) (Num b) = (b < a)"
  by (simp add: dgreater_def)

lemma search_input_city:
  assumes "search_input P cs"
  shows "cs ! (p mod n_cities P) < n_cities P"
proof -
  from assms have "0 < n_cities P" "length cs = n_cities P" "\<forall>c\<in>set cs. c < n_cities P"
    by (simp_all add: search_input_def list_all_iff)
  then show ?thesis by (metis mod_less_divisor nth_mem)
qed

lemma edge_nonneg:
  assumes "search_input P cs" "nonneg_weights P"
  shows "edge P cs p = Num (edge_weight P cs p) \<and> 0 \<le> edge_weight P cs p"
proof -
  let ?i = "cs ! (p mod n_cities P)" and ?j = "cs ! ((p + 1) mod n_cities P)"
  have i: "?i < n_cities P" and j: "?j < n_cities P"
    using search_input_city [OF assms(1)] by simp_all
  from assms(1) have len: "length (m_weights P) = n_cities P"
    and rows: "\<forall>row\<in>set (m_weights P). length row = n_cities P"
    by (simp_all add: search_input_def vectors_sized_def list_all_iff)
  from i len have row: "m_weights P ! ?i \<in> set (m_weights P)" by simp
  with rows j have "m_weights P ! ?i ! ?j \<in> set (m_weights P ! ?i)" by simp
  with row assms(2) have "nonneg (m_weights P ! ?i ! ?j)"
    by (auto simp: nonneg_weights_def list_all_iff)
  from nonneg_num [OF this] show ?thesis by (simp add: edge_def edge_weight_def)
qed

lemma value_nonneg:
  assumes "search_input P cs" "nonneg_values P" "q < n_cities P"
  shows "m_values P ! q = Num (num (m_values P ! q)) \<and> 0 \<le> num (m_values P ! q)"
proof -
  from assms(1,3) have "m_values P ! q \<in> set (m_values P)"
    by (simp add: search_input_def vectors_sized_def)
  with assms(2) have "nonneg (m_values P ! q)" by (simp add: nonneg_values_def list_all_iff)
  then show ?thesis by (rule nonneg_num)
qed

lemma position_value_nonneg:
  assumes "search_input P cs" "nonneg_values P"
  shows "m_values P ! (p mod n_cities P) = Num (position_value P p)" "0 \<le> position_value P p"
proof -
  from assms(1) have "p mod n_cities P < n_cities P" by (simp add: search_input_def)
  from value_nonneg [OF assms this]
  show "m_values P ! (p mod n_cities P) = Num (position_value P p)" "0 \<le> position_value P p"
    by (simp_all add: position_value_def)
qed

lemma window_length_empty [simp]: "window_length P cs l l = 0"
  by (simp add: window_length_def)

lemma window_length_Suc:
  "l \<le> r \<Longrightarrow> window_length P cs l (Suc r) = window_length P cs l r + edge_weight P cs r"
  by (simp add: window_length_def)

lemma window_length_left:
  "l < r \<Longrightarrow> window_length P cs l r = edge_weight P cs l + window_length P cs (Suc l) r"
  by (simp add: window_length_def sum.atLeast_Suc_lessThan)

lemma window_length_mono:
  assumes "search_input P cs" "nonneg_weights P" "r \<le> r'"
  shows "window_length P cs l r \<le> window_length P cs l r'"
  unfolding window_length_def
  by (rule sum_mono2) (use assms edge_nonneg in auto)

lemma window_length_nonneg:
  assumes "search_input P cs" "nonneg_weights P"
  shows "0 \<le> window_length P cs l r"
  unfolding window_length_def
  by (rule sum_nonneg) (use assms edge_nonneg in auto)

lemma scanned_value_single [simp]: "scanned_value P l l = position_value P l"
  by (simp add: scanned_value_def)

lemma scanned_value_Suc:
  "l \<le> Suc r \<Longrightarrow> scanned_value P l (Suc r) = scanned_value P l r + position_value P (Suc r)"
  by (simp add: scanned_value_def)

lemma scanned_value_left:
  "l \<le> r \<Longrightarrow> scanned_value P l r = position_value P l + scanned_value P (Suc l) r"
  unfolding scanned_value_def by (rule sum.atLeast_Suc_lessThan) simp

lemma edge_periodic: "edge_weight P cs (p + n_cities P) = edge_weight P cs p"
proof -
  have "p + n_cities P + 1 = (p + 1) + n_cities P" by simp
  then have "(p + n_cities P + 1) mod n_cities P = (p + 1) mod n_cities P"
    by (simp only: mod_add_self2)
  then show ?thesis by (simp add: edge_weight_def edge_def)
qed

lemma position_value_periodic: "position_value P (p + n_cities P) = position_value P p"
  by (simp add: position_value_def)

lemma window_length_periodic:
  "window_length P cs (a + n_cities P) (b + n_cities P) = window_length P cs a b"
  unfolding window_length_def sum.shift_bounds_nat_ivl by (simp only: edge_periodic)

lemma scanned_value_periodic:
  "scanned_value P (a + n_cities P) (b + n_cities P) = scanned_value P a b"
proof -
  have "Suc (b + n_cities P) = Suc b + n_cities P" by simp
  then have "scanned_value P (a + n_cities P) (b + n_cities P)
      = sum (position_value P) {a + n_cities P..<Suc b + n_cities P}"
    by (simp only: scanned_value_def)
  also have "\<dots> = (\<Sum>p = a..<Suc b. position_value P (p + n_cities P))"
    by (rule sum.shift_bounds_nat_ivl)
  finally show ?thesis by (simp only: position_value_periodic scanned_value_def)
qed

lemma mod_eq_imp_far:
  assumes "u < v" "u mod n = v mod n" "0 < (n::nat)"
  shows "n \<le> v - u"
proof -
  from assms(1,2) have "(v - u) mod n = 0"
    by (metis less_imp_le_nat mod_self mod_eq_dvd_iff_nat mod_0_imp_dvd dvd_imp_mod_0)
  then have "n dvd v - u" by auto
  moreover have "0 < v - u" using assms(1) by simp
  ultimately show ?thesis by (rule dvd_imp_le)
qed

lemma wrap_iff:
  assumes "l \<le> r" "r \<le> l + n" "0 < (n::nat)"
  shows "l mod n = r mod n \<longleftrightarrow> r = l \<or> r = l + n"
proof
  assume eq: "l mod n = r mod n"
  show "r = l \<or> r = l + n"
  proof (cases "l = r")
    case False
    with assms(1) have "l < r" by simp
    from mod_eq_imp_far [OF this eq assms(3)] assms(2) \<open>l < r\<close> show ?thesis by linarith
  qed simp
qed auto

lemma inj_on_mod_window:
  assumes "0 < (n::nat)" "b < a + n"
  shows "inj_on (\<lambda>p. p mod n) {a..<Suc b}"
proof (rule inj_onI)
  fix x y assume x: "x \<in> {a..<Suc b}" and y: "y \<in> {a..<Suc b}" and eq: "x mod n = y mod n"
  show "x = y"
  proof (rule ccontr)
    assume ne: "x \<noteq> y"
    have far: False if uv: "u < v" "u mod n = v mod n" "a \<le> u" "v \<le> b" for u v
      using mod_eq_imp_far [OF uv(1,2) assms(1)] uv assms(2) by linarith
    from ne consider "x < y" | "y < x" by (cases x y rule: linorder_cases) auto
    then show False using far [of x y] far [of y x] x y eq by cases auto
  qed
qed

text \<open>A window holds every position modulo \<open>n_cities\<close> at most once, so with non-negative
  values no window is worth more than a window of all positions.\<close>

lemma scanned_value_le_total:
  assumes "search_input P cs" "nonneg_values P" "a \<le> b" "b < a + n_cities P"
  shows "scanned_value P a b \<le> (\<Sum>q<n_cities P. num (m_values P ! q))"
proof -
  let ?n = "n_cities P"
  from assms(1) have n: "0 < ?n" by (simp add: search_input_def)
  note inj = inj_on_mod_window [OF n assms(4)]
  have "scanned_value P a b = (\<Sum>q\<in>(\<lambda>p. p mod ?n) ` {a..<Suc b}. num (m_values P ! q))"
    unfolding scanned_value_def position_value_def by (simp add: sum.reindex [OF inj])
  also have "\<dots> \<le> (\<Sum>q<?n. num (m_values P ! q))"
  proof (rule sum_mono2)
    show "finite {..<?n}" by simp
    show "(\<lambda>p. p mod ?n) ` {a..<Suc b} \<subseteq> {..<?n}" using n by auto
    show "\<And>q. q \<in> {..<?n} - (\<lambda>p. p mod ?n) ` {a..<Suc b} \<Longrightarrow> 0 \<le> num (m_values P ! q)"
      using value_nonneg [OF assms(1,2)] by simp
  qed
  finally show ?thesis .
qed

lemma scanned_value_total:
  assumes "search_input P cs"
  shows "scanned_value P l (l + n_cities P - 1) = (\<Sum>q<n_cities P. num (m_values P ! q))"
proof -
  let ?n = "n_cities P"
  from assms(1) have n: "0 < ?n" by (simp add: search_input_def)
  have S: "Suc (l + ?n - 1) = l + ?n" using n by simp
  have "inj_on (\<lambda>p. p mod ?n) {l..<Suc (l + ?n - 1)}"
    using n by (intro inj_on_mod_window) simp_all
  then have inj: "inj_on (\<lambda>p. p mod ?n) {l..<l + ?n}" unfolding S .
  have img: "(\<lambda>p. p mod ?n) ` {l..<l + ?n} = {..<?n}"
  proof (rule card_subset_eq)
    show "finite {..<?n}" by simp
    show "(\<lambda>p. p mod ?n) ` {l..<l + ?n} \<subseteq> {..<?n}" using n by auto
    show "card ((\<lambda>p. p mod ?n) ` {l..<l + ?n}) = card {..<?n}"
      by (simp add: card_image [OF inj])
  qed
  have "scanned_value P l (l + ?n - 1) = (\<Sum>q\<in>(\<lambda>p. p mod ?n) ` {l..<l + ?n}. num (m_values P ! q))"
    unfolding scanned_value_def position_value_def S by (simp add: sum.reindex [OF inj])
  then show ?thesis unfolding img .
qed

section \<open>The invariants of the search\<close>

lemma num_Num [simp]: "num (Num a) = a"
  by (simp add: num_def)

lemma update_retvals_num:
  assumes "cum_p s = Num c" "saved_length s = Num sv" "retval_p s = Num bp" "retval_l s = Num bl"
  shows "(update_retvals n s = s \<and> c \<le> bp) \<or> (update_retvals n s = record_retvals n s \<and> bp \<le> c)"
  using assms by (auto simp: update_retvals_def)

lemma recorded_record:
  assumes "cum_p s = Num (value_offset P cs + scanned_value P (it_l s) (it_r s))"
    and "saved_length s = Num (L - window_length P cs (it_l s) (it_r s))"
  shows "recorded P cs L (record_retvals (n_cities P) s) (it_l s) (it_r s)"
  using assms by (simp add: recorded_def record_retvals_def)

lemma record_retvals_fields [simp]:
  "it_l (record_retvals n s) = it_l s" "it_r (record_retvals n s) = it_r s"
  "cond_l (record_retvals n s) = cond_l s" "cond_r (record_retvals n s) = cond_r s"
  "cum_p (record_retvals n s) = cum_p s" "saved_length (record_retvals n s) = saved_length s"
  "retval_p (record_retvals n s) = cum_p s"
  by (simp_all add: record_retvals_def)

text \<open>Comparing the current window with the best one keeps both invariants, when the
  current window is within the budget.\<close>

lemma shape_inv_update:
  assumes sh: "shape_inv P cs L s" and fit: "window_length P cs (it_l s) (it_r s) \<le> L"
    and r: "it_r s < it_l s + n_cities P"
  shows "shape_inv P cs L (update_retvals (n_cities P) s)"
proof -
  from sh obtain a b where ab: "a \<le> b" "b < a + n_cities P" "a \<le> n_cities P"
    "recorded P cs L s a b" "a = 0 \<and> b = 0 \<or> window_length P cs a b \<le> L"
    unfolding shape_inv_def by blast
  from sh have c: "cum_p s = Num (value_offset P cs + scanned_value P (it_l s) (it_r s))"
    and sv: "saved_length s = Num (L - window_length P cs (it_l s) (it_r s))"
    and init: "value_offset P cs + scanned_value P 0 0 \<le> num (retval_p s)"
    and lr: "it_l s \<le> it_r s" "it_l s \<le> n_cities P"
    unfolding shape_inv_def by blast+
  from ab(4) have bp: "retval_p s = Num (value_offset P cs + scanned_value P a b)"
    and bl: "retval_l s = Num (L - window_length P cs a b)"
    unfolding recorded_def by blast+
  from update_retvals_num [OF c sv bp bl, of "n_cities P"]
  show ?thesis
  proof
    assume "update_retvals (n_cities P) s = s
      \<and> value_offset P cs + scanned_value P (it_l s) (it_r s)
          \<le> value_offset P cs + scanned_value P a b"
    with sh show ?thesis by simp
  next
    assume u: "update_retvals (n_cities P) s = record_retvals (n_cities P) s
      \<and> value_offset P cs + scanned_value P a b
          \<le> value_offset P cs + scanned_value P (it_l s) (it_r s)"
    have rec: "recorded P cs L (record_retvals (n_cities P) s) (it_l s) (it_r s)"
      using c sv by (rule recorded_record)
    have "value_offset P cs + scanned_value P 0 0 \<le> num (retval_p (record_retvals (n_cities P) s))"
      using init u bp c by simp
    moreover have "\<exists>a b. a \<le> b \<and> b < a + n_cities P \<and> a \<le> n_cities P
        \<and> recorded P cs L (record_retvals (n_cities P) s) a b
        \<and> (a = 0 \<and> b = 0 \<or> window_length P cs a b \<le> L)"
      using rec lr r fit by blast
    ultimately show ?thesis
      using sh u unfolding shape_inv_def by simp
  qed
qed

lemma retval_p_update_mono:
  assumes sh: "shape_inv P cs L s"
  shows "num (retval_p s) \<le> num (retval_p (update_retvals (n_cities P) s))"
    and "value_offset P cs + scanned_value P (it_l s) (it_r s)
           \<le> num (retval_p (update_retvals (n_cities P) s))"
proof -
  from sh obtain a b where ab: "recorded P cs L s a b"
    unfolding shape_inv_def by blast
  from sh have c: "cum_p s = Num (value_offset P cs + scanned_value P (it_l s) (it_r s))"
    and sv: "saved_length s = Num (L - window_length P cs (it_l s) (it_r s))"
    unfolding shape_inv_def by blast+
  from ab have bp: "retval_p s = Num (value_offset P cs + scanned_value P a b)"
    and bl: "retval_l s = Num (L - window_length P cs a b)"
    unfolding recorded_def by blast+
  from update_retvals_num [OF c sv bp bl, of "n_cities P"]
  show "num (retval_p s) \<le> num (retval_p (update_retvals (n_cities P) s))"
    and "value_offset P cs + scanned_value P (it_l s) (it_r s)
           \<le> num (retval_p (update_retvals (n_cities P) s))"
    using bp c by auto
qed

text \<open>The inner loop body on a state that satisfies the invariant.\<close>

lemma extend_right_eq:
  assumes inp: "search_input P cs" and nw: "nonneg_weights P" and nv: "nonneg_values P"
    and sh: "shape_inv P cs L s"
  shows "extend_right P cs s =
     (let s1 = s\<lparr>saved_length := Num (L - window_length P cs (it_l s) (Suc (it_r s))),
                 cum_p := Num (value_offset P cs + scanned_value P (it_l s) (Suc (it_r s))),
                 it_r := Suc (it_r s)\<rparr>
      in if L - window_length P cs (it_l s) (Suc (it_r s)) < 0
            \<or> it_l s mod n_cities P = Suc (it_r s) mod n_cities P
         then s1\<lparr>cond_r := False\<rparr>
         else update_retvals (n_cities P) s1)"
proof -
  from sh have c: "cum_p s = Num (value_offset P cs + scanned_value P (it_l s) (it_r s))"
    and sv: "saved_length s = Num (L - window_length P cs (it_l s) (it_r s))"
    and lr: "it_l s \<le> it_r s"
    unfolding shape_inv_def by blast+
  have e: "edge P cs (it_r s) = Num (edge_weight P cs (it_r s))"
    using edge_nonneg [OF inp nw] by blast
  have v: "m_values P ! (Suc (it_r s) mod n_cities P) = Num (position_value P (Suc (it_r s)))"
    using position_value_nonneg(1) [OF inp nv] .
  have 1: "L - window_length P cs (it_l s) (it_r s) - edge_weight P cs (it_r s)
             = L - window_length P cs (it_l s) (Suc (it_r s))"
    using lr by (simp add: window_length_Suc)
  have 2: "value_offset P cs + scanned_value P (it_l s) (it_r s) + position_value P (Suc (it_r s))
             = value_offset P cs + scanned_value P (it_l s) (Suc (it_r s))"
    using lr by (simp add: scanned_value_Suc)
  show ?thesis
    unfolding extend_right_def Let_def by (simp add: c sv e v 1 2)
qed

lemma extend_right_shape:
  assumes inp: "search_input P cs" and nw: "nonneg_weights P" and nv: "nonneg_values P"
    and sh: "shape_inv P cs L s" and cr: "cond_r s"
  shows "shape_inv P cs L (extend_right P cs s)"
proof -
  let ?n = "n_cities P"
  define s1 where "s1 = s\<lparr>saved_length := Num (L - window_length P cs (it_l s) (Suc (it_r s))),
                 cum_p := Num (value_offset P cs + scanned_value P (it_l s) (Suc (it_r s))),
                 it_r := Suc (it_r s)\<rparr>"
  from inp have n: "0 < ?n" by (simp add: search_input_def)
  from sh cr have lr: "it_l s \<le> it_r s" "it_r s < it_l s + ?n"
    unfolding shape_inv_def by blast+
  have wrap: "it_l s mod ?n = Suc (it_r s) mod ?n \<longleftrightarrow> Suc (it_r s) = it_l s + ?n"
    using wrap_iff [of "it_l s" "Suc (it_r s)" ?n] lr n by auto
  have rec: "recorded P cs L (s1\<lparr>cond_r := c\<rparr>) a b = recorded P cs L s a b" for a b c
    by (simp add: recorded_def s1_def)
  show ?thesis
  proof (cases "L - window_length P cs (it_l s) (Suc (it_r s)) < 0
            \<or> it_l s mod ?n = Suc (it_r s) mod ?n")
    case True
    then have "extend_right P cs s = s1\<lparr>cond_r := False\<rparr>"
      unfolding extend_right_eq [OF inp nw nv sh] s1_def by (simp add: Let_def)
    moreover have "shape_inv P cs L (s1\<lparr>cond_r := False\<rparr>)"
      using sh lr unfolding shape_inv_def rec by (simp add: s1_def)
    ultimately show ?thesis by simp
  next
    case False
    then have eq: "extend_right P cs s = update_retvals ?n s1"
      unfolding extend_right_eq [OF inp nw nv sh] s1_def by (simp add: Let_def)
    from False wrap lr have r: "Suc (it_r s) < it_l s + ?n" by simp
    have "s1\<lparr>cond_r := cond_r s\<rparr> = s1" by (simp add: s1_def)
    then have rec1: "recorded P cs L s1 a b = recorded P cs L s a b" for a b
      using rec [of "cond_r s" a b] by simp
    have "shape_inv P cs L s1"
      using sh lr r unfolding shape_inv_def rec1 by (simp add: s1_def)
    then have "shape_inv P cs L (update_retvals ?n s1)"
    proof (rule shape_inv_update)
      show "window_length P cs (it_l s1) (it_r s1) \<le> L" using False by (simp add: s1_def)
      show "it_r s1 < it_l s1 + ?n" using r by (simp add: s1_def)
    qed
    with eq show ?thesis by simp
  qed
qed

lemma extend_right_dom:
  assumes inp: "search_input P cs" and nw: "nonneg_weights P" and nv: "nonneg_values P"
    and sh: "shape_inv P cs L s" and dom: "dom_inv P cs L s" and cr: "cond_r s"
  shows "dom_inv P cs L (extend_right P cs s)"
proof -
  let ?n = "n_cities P"
  let ?val = "\<lambda>a b. value_offset P cs + scanned_value P a b"
  define s1 where "s1 = s\<lparr>saved_length := Num (L - window_length P cs (it_l s) (Suc (it_r s))),
                 cum_p := Num (value_offset P cs + scanned_value P (it_l s) (Suc (it_r s))),
                 it_r := Suc (it_r s)\<rparr>"
  from inp have n: "0 < ?n" by (simp add: search_input_def)
  from sh cr have lr: "it_l s \<le> it_r s" "it_r s < it_l s + ?n"
    unfolding shape_inv_def by blast+
  have wrap: "it_l s mod ?n = Suc (it_r s) mod ?n \<longleftrightarrow> Suc (it_r s) = it_l s + ?n"
    using wrap_iff [of "it_l s" "Suc (it_r s)" ?n] lr n by auto
  from dom cr have
    I3: "\<And>a b. a < it_l s \<Longrightarrow> a \<le> b \<Longrightarrow> b < a + ?n \<Longrightarrow> window_length P cs a b < L
          \<Longrightarrow> ?val a b \<le> num (retval_p s)"
    and I4: "\<And>b. it_l s \<le> b \<Longrightarrow> b < it_r s \<Longrightarrow> ?val (it_l s) b \<le> num (retval_p s)"
    and I5: "?val (it_l s) (it_r s) \<le> num (retval_p s)"
    unfolding dom_inv_def by blast+
  have I4': "?val (it_l s) b \<le> num (retval_p s)" if "it_l s \<le> b" "b < Suc (it_r s)" for b
    using that I4 [of b] I5 by (cases "b = it_r s") auto
  show ?thesis
  proof (cases "L - window_length P cs (it_l s) (Suc (it_r s)) < 0
            \<or> it_l s mod ?n = Suc (it_r s) mod ?n")
    case True
    then have eq: "extend_right P cs s = s1\<lparr>cond_r := False\<rparr>"
      unfolding extend_right_eq [OF inp nw nv sh] s1_def by (simp add: Let_def)
    have I6: "(L \<le> window_length P cs (it_l s) (Suc (it_r s)) \<and> Suc (it_r s) < it_l s + ?n)
              \<or> (Suc (it_r s) = it_l s + ?n \<and> ?val (it_l s) (it_r s) \<le> num (retval_p s))"
      using True I5 lr unfolding wrap by auto
    show ?thesis
      unfolding eq dom_inv_def using I3 I4' I6 by (simp add: s1_def)
  next
    case False
    then have eq: "extend_right P cs s = update_retvals ?n s1"
      unfolding extend_right_eq [OF inp nw nv sh] s1_def by (simp add: Let_def)
    from False wrap lr have r: "Suc (it_r s) < it_l s + ?n" by simp
    have rec1: "recorded P cs L s1 a b = recorded P cs L s a b" for a b
      by (simp add: recorded_def s1_def)
    have sh1: "shape_inv P cs L s1"
      using sh lr r unfolding shape_inv_def rec1 by (simp add: s1_def)
    from retval_p_update_mono [OF sh1]
    have mono: "num (retval_p s) \<le> num (retval_p (update_retvals ?n s1))"
      and cur: "?val (it_l s) (Suc (it_r s)) \<le> num (retval_p (update_retvals ?n s1))"
      by (simp_all add: s1_def)
    have cr1: "cond_r (update_retvals ?n s1)" using cr by (simp add: s1_def)
    have f: "it_l (update_retvals ?n s1) = it_l s" "it_r (update_retvals ?n s1) = Suc (it_r s)"
      by (simp_all add: s1_def)
    show ?thesis
      unfolding eq dom_inv_def f using I3 I4' mono cur cr1
      by (auto intro: order_trans)
  qed
qed

lemma advance_left_eq:
  assumes inp: "search_input P cs" and nw: "nonneg_weights P" and nv: "nonneg_values P"
    and sh: "shape_inv P cs L s" and l: "it_l s < n_cities P"
    and nowrap: "it_l s mod n_cities P \<noteq> it_r s mod n_cities P"
  shows "advance_left P cs s =
     (let s1 = s\<lparr>saved_length := Num (L - window_length P cs (Suc (it_l s)) (it_r s)),
                 cum_p := Num (value_offset P cs + scanned_value P (Suc (it_l s)) (it_r s)),
                 it_l := Suc (it_l s)\<rparr>;
          s2 = (if 0 < L - window_length P cs (Suc (it_l s)) (it_r s)
                then update_retvals (n_cities P) (s1\<lparr>cond_r := True\<rparr>) else s1)
      in if Suc (it_l s) = n_cities P then s2\<lparr>cond_l := False\<rparr> else s2)"
    and "it_l s < it_r s" and "it_r s < it_l s + n_cities P"
proof -
  from sh have c: "cum_p s = Num (value_offset P cs + scanned_value P (it_l s) (it_r s))"
    and sv: "saved_length s = Num (L - window_length P cs (it_l s) (it_r s))"
    and lr: "it_l s \<le> it_r s" "it_r s \<le> it_l s + n_cities P"
    unfolding shape_inv_def by blast+
  from inp have n: "0 < n_cities P" by (simp add: search_input_def)
  from wrap_iff [OF lr n] nowrap lr
  show lt: "it_l s < it_r s" and "it_r s < it_l s + n_cities P" by auto
  have e: "edge P cs (it_l s) = Num (edge_weight P cs (it_l s))"
    using edge_nonneg [OF inp nw] by blast
  have v: "m_values P ! (it_l s) = Num (position_value P (it_l s))"
    using position_value_nonneg(1) [OF inp nv, of "it_l s"] l by simp
  have 1: "L - window_length P cs (it_l s) (it_r s) + edge_weight P cs (it_l s)
             = L - window_length P cs (Suc (it_l s)) (it_r s)"
    using lt by (simp add: window_length_left)
  have 2: "value_offset P cs + scanned_value P (it_l s) (it_r s) - position_value P (it_l s)
             = value_offset P cs + scanned_value P (Suc (it_l s)) (it_r s)"
    using lr by (simp add: scanned_value_left)
  show "advance_left P cs s =
     (let s1 = s\<lparr>saved_length := Num (L - window_length P cs (Suc (it_l s)) (it_r s)),
                 cum_p := Num (value_offset P cs + scanned_value P (Suc (it_l s)) (it_r s)),
                 it_l := Suc (it_l s)\<rparr>;
          s2 = (if 0 < L - window_length P cs (Suc (it_l s)) (it_r s)
                then update_retvals (n_cities P) (s1\<lparr>cond_r := True\<rparr>) else s1)
      in if Suc (it_l s) = n_cities P then s2\<lparr>cond_l := False\<rparr> else s2)"
    unfolding advance_left_def Let_def using nowrap by (simp add: c sv e v 1 2)
qed

lemma shape_inv_cond_l [simp]: "shape_inv P cs L (s\<lparr>cond_l := c\<rparr>) = shape_inv P cs L s"
  by (simp add: shape_inv_def recorded_def)

lemma dom_inv_cond_l [simp]: "dom_inv P cs L (s\<lparr>cond_l := c\<rparr>) = dom_inv P cs L s"
  by (simp add: dom_inv_def)

lemma dominated_cond_l [simp]: "dominated P cs L (s\<lparr>cond_l := c\<rparr>) = dominated P cs L s"
  by (simp add: dominated_def)

lemma advance_left_shape:
  assumes inp: "search_input P cs" and nw: "nonneg_weights P" and nv: "nonneg_values P"
    and sh: "shape_inv P cs L s" and l: "it_l s < n_cities P"
  shows "shape_inv P cs L (advance_left P cs s)"
    and "cond_l (advance_left P cs s) \<longrightarrow> it_l (advance_left P cs s) < n_cities P"
proof -
  let ?n = "n_cities P"
  define s1 where "s1 = s\<lparr>saved_length := Num (L - window_length P cs (Suc (it_l s)) (it_r s)),
                 cum_p := Num (value_offset P cs + scanned_value P (Suc (it_l s)) (it_r s)),
                 it_l := Suc (it_l s)\<rparr>"
  define s2 where "s2 = (if 0 < L - window_length P cs (Suc (it_l s)) (it_r s)
                then update_retvals ?n (s1\<lparr>cond_r := True\<rparr>) else s1)"
  have "shape_inv P cs L (advance_left P cs s)
      \<and> (cond_l (advance_left P cs s) \<longrightarrow> it_l (advance_left P cs s) < ?n)"
  proof (cases "it_l s mod ?n = it_r s mod ?n")
    case True
    then have "advance_left P cs s = s\<lparr>cond_l := False\<rparr>"
      by (simp add: advance_left_def Let_def)
    with sh show ?thesis by simp
  next
    case False
    note adv = advance_left_eq [OF inp nw nv sh l False]
    have eq: "advance_left P cs s = (if Suc (it_l s) = ?n then s2\<lparr>cond_l := False\<rparr> else s2)"
      unfolding adv(1) s1_def s2_def by (simp add: Let_def)
    have rec: "recorded P cs L (s1\<lparr>cond_r := c\<rparr>) a b = recorded P cs L s a b" for a b c
      by (simp add: recorded_def s1_def)
    have "s1\<lparr>cond_r := cond_r s\<rparr> = s1" by (simp add: s1_def)
    then have rec1: "recorded P cs L s1 a b = recorded P cs L s a b" for a b
      using rec [of "cond_r s" a b] by simp
    have sh1: "shape_inv P cs L s1"
      using sh adv(2,3) l unfolding shape_inv_def rec1 by (simp add: s1_def)
    have sh1': "shape_inv P cs L (s1\<lparr>cond_r := True\<rparr>)"
      using sh adv(2,3) l unfolding shape_inv_def rec by (simp add: s1_def)
    have sh2: "shape_inv P cs L s2"
    proof (cases "0 < L - window_length P cs (Suc (it_l s)) (it_r s)")
      case True
      have "shape_inv P cs L (update_retvals ?n (s1\<lparr>cond_r := True\<rparr>))"
        using sh1'
      proof (rule shape_inv_update)
        show "window_length P cs (it_l (s1\<lparr>cond_r := True\<rparr>)) (it_r (s1\<lparr>cond_r := True\<rparr>)) \<le> L"
          using True by (simp add: s1_def)
        show "it_r (s1\<lparr>cond_r := True\<rparr>) < it_l (s1\<lparr>cond_r := True\<rparr>) + ?n"
          using adv(3) by (simp add: s1_def)
      qed
      with True show ?thesis by (simp add: s2_def)
    next
      case False
      with sh1 show ?thesis by (simp add: s2_def)
    qed
    have f: "it_l s2 = Suc (it_l s)" by (simp add: s2_def s1_def)
    show ?thesis unfolding eq using sh2 f l by auto
  qed
  then show "shape_inv P cs L (advance_left P cs s)"
    and "cond_l (advance_left P cs s) \<longrightarrow> it_l (advance_left P cs s) < n_cities P"
    by blast+
qed

lemma advance_left_dom:
  assumes inp: "search_input P cs" and nw: "nonneg_weights P" and nv: "nonneg_values P"
    and L: "0 < L"
    and sh: "shape_inv P cs L s" and dom: "dom_inv P cs L s"
    and cr: "\<not> cond_r s" and l: "it_l s < n_cities P" and cl: "cond_l s"
  shows "\<not> cond_l (advance_left P cs s) \<longrightarrow> dominated P cs L (advance_left P cs s)"
    and "cond_l (advance_left P cs s) \<longrightarrow> dom_inv P cs L (advance_left P cs s)"
proof -
  let ?n = "n_cities P"
  let ?val = "\<lambda>a b. value_offset P cs + scanned_value P a b"
  define s1 where "s1 = s\<lparr>saved_length := Num (L - window_length P cs (Suc (it_l s)) (it_r s)),
                 cum_p := Num (value_offset P cs + scanned_value P (Suc (it_l s)) (it_r s)),
                 it_l := Suc (it_l s)\<rparr>"
  define s2 where "s2 = (if 0 < L - window_length P cs (Suc (it_l s)) (it_r s)
                then update_retvals ?n (s1\<lparr>cond_r := True\<rparr>) else s1)"
  from inp have n: "0 < ?n" by (simp add: search_input_def)
  from sh have lr: "it_l s \<le> it_r s" "it_r s \<le> it_l s + ?n"
    unfolding shape_inv_def by blast+
  from dom cr have
    I3: "\<And>a b. a < it_l s \<Longrightarrow> a \<le> b \<Longrightarrow> b < a + ?n \<Longrightarrow> window_length P cs a b < L
          \<Longrightarrow> ?val a b \<le> num (retval_p s)"
    and I4: "\<And>b. it_l s \<le> b \<Longrightarrow> b < it_r s \<Longrightarrow> ?val (it_l s) b \<le> num (retval_p s)"
    and I6: "(L \<le> window_length P cs (it_l s) (it_r s) \<and> it_r s < it_l s + ?n)
              \<or> (it_r s = it_l s + ?n \<and> ?val (it_l s) (it_r s - 1) \<le> num (retval_p s))"
    unfolding dom_inv_def by blast+
  have "(\<not> cond_l (advance_left P cs s) \<longrightarrow> dominated P cs L (advance_left P cs s))
      \<and> (cond_l (advance_left P cs s) \<longrightarrow> dom_inv P cs L (advance_left P cs s))"
  proof (cases "it_l s mod ?n = it_r s mod ?n")
    case True
    then have eq: "advance_left P cs s = s\<lparr>cond_l := False\<rparr>"
      by (simp add: advance_left_def Let_def)
    from True wrap_iff [OF lr n] have "it_r s = it_l s \<or> it_r s = it_l s + ?n" by simp
    with I6 L n have full: "it_r s = it_l s + ?n"
      and tot: "?val (it_l s) (it_l s + ?n - 1) \<le> num (retval_p s)"
      by auto
    have "dominated P cs L s"
      unfolding dominated_def
    proof (intro allI impI)
      fix a b assume "a \<le> b" "b < a + ?n"
      from scanned_value_le_total [OF inp nv this]
      have "scanned_value P a b \<le> scanned_value P (it_l s) (it_l s + ?n - 1)"
        unfolding scanned_value_total [OF inp] .
      with tot show "?val a b \<le> num (retval_p s)" by simp
    qed
    then show ?thesis unfolding eq by simp
  next
    case False
    note adv = advance_left_eq [OF inp nw nv sh l False]
    have eq: "advance_left P cs s = (if Suc (it_l s) = ?n then s2\<lparr>cond_l := False\<rparr> else s2)"
      unfolding adv(1) s1_def s2_def by (simp add: Let_def)
    from I6 adv(3) have far: "L \<le> window_length P cs (it_l s) (it_r s)" by auto
    have rec: "recorded P cs L (s1\<lparr>cond_r := True\<rparr>) a b = recorded P cs L s a b" for a b
      by (simp add: recorded_def s1_def)
    have sh1': "shape_inv P cs L (s1\<lparr>cond_r := True\<rparr>)"
      using sh adv(2,3) l unfolding shape_inv_def rec by (simp add: s1_def)
    have f: "it_l s2 = Suc (it_l s)" "it_r s2 = it_r s"
      by (simp_all add: s2_def s1_def)
    have mono: "num (retval_p s) \<le> num (retval_p s2)"
      using retval_p_update_mono(1) [OF sh1'] by (simp add: s2_def s1_def)
    have J3: "?val a b \<le> num (retval_p s2)"
      if ab: "a < Suc (it_l s)" "a \<le> b" "b < a + ?n" "window_length P cs a b < L" for a b
    proof (cases "a = it_l s")
      case False
      with ab have "?val a b \<le> num (retval_p s)" by (intro I3) simp_all
      with mono show ?thesis by simp
    next
      case True
      have "b < it_r s"
      proof (rule ccontr)
        assume "\<not> b < it_r s"
        then have "window_length P cs (it_l s) (it_r s) \<le> window_length P cs (it_l s) b"
          by (intro window_length_mono [OF inp nw]) simp
        with far ab(4) True show False by simp
      qed
      with ab(2) True have "?val a b \<le> num (retval_p s)" using I4 [of b] by simp
      with mono show ?thesis by simp
    qed
    have J4: "?val (Suc (it_l s)) b \<le> num (retval_p s2)"
      if b: "Suc (it_l s) \<le> b" "b < it_r s" for b
    proof -
      have "scanned_value P (it_l s) b = position_value P (it_l s) + scanned_value P (Suc (it_l s)) b"
        using b by (intro scanned_value_left) simp
      with position_value_nonneg(2) [OF inp nv, of "it_l s"]
      have "?val (Suc (it_l s)) b \<le> ?val (it_l s) b" by simp
      also have "\<dots> \<le> num (retval_p s)" using b by (intro I4) simp_all
      finally show ?thesis using mono by simp
    qed
    have J5: "cond_r s2 \<longrightarrow> ?val (Suc (it_l s)) (it_r s) \<le> num (retval_p s2)"
      using retval_p_update_mono(2) [OF sh1'] cr by (simp add: s2_def s1_def)
    have J6: "\<not> cond_r s2 \<longrightarrow> L \<le> window_length P cs (Suc (it_l s)) (it_r s)
          \<and> it_r s < Suc (it_l s) + ?n"
      using adv(3) by (simp add: s2_def s1_def)
    have d2: "dom_inv P cs L s2"
      unfolding dom_inv_def f using J3 J4 J5 J6 by blast
    have "dominated P cs L s2" if "Suc (it_l s) = ?n"
      unfolding dominated_def using J3 that by simp
    moreover have "cond_l s2" using cl by (simp add: s2_def s1_def)
    ultimately show ?thesis using d2 unfolding eq by simp
  qed
  then show "\<not> cond_l (advance_left P cs s) \<longrightarrow> dominated P cs L (advance_left P cs s)"
    and "cond_l (advance_left P cs s) \<longrightarrow> dom_inv P cs L (advance_left P cs s)"
    by blast+
qed

text \<open>The two loops, with an invariant.\<close>

lemma inner_loop_steps_inv:
  assumes step: "\<And>s. I s \<Longrightarrow> cond_r s \<Longrightarrow> I (extend_right P tour s)"
    and "(it_r s + Suc j) mod n_cities P = it_l s mod n_cities P" and "I s"
  shows "\<exists>s'. inner_loop P tour s = Some s' \<and> I s' \<and> \<not> cond_r s'
            \<and> it_l s' = it_l s \<and> cond_l s' = cond_l s"
  using assms(2,3)
proof (induction j arbitrary: s)
  case 0
  show ?case
  proof (cases "cond_r s")
    case False
    with 0 show ?thesis by (subst inner_loop.simps) simp
  next
    case True
    let ?s1 = "extend_right P tour s"
    from 0 have "\<not> cond_r ?s1" by (intro extend_right_wrap) simp
    then have "inner_loop P tour ?s1 = Some ?s1" by (subst inner_loop.simps) simp
    with True have "inner_loop P tour s = Some ?s1" by (subst inner_loop.simps) simp
    with \<open>\<not> cond_r ?s1\<close> step [OF 0(2) True] show ?thesis by simp
  qed
next
  case (Suc j)
  show ?case
  proof (cases "cond_r s")
    case False
    with Suc.prems show ?thesis by (subst inner_loop.simps) simp
  next
    case True
    let ?s1 = "extend_right P tour s"
    from Suc.prems have "(it_r ?s1 + Suc j) mod n_cities P = it_l ?s1 mod n_cities P" by simp
    from Suc.IH [OF this step [OF Suc.prems(2) True]] obtain s'
      where s': "inner_loop P tour ?s1 = Some s'" "I s'" "\<not> cond_r s'"
        "it_l s' = it_l ?s1" "cond_l s' = cond_l ?s1"
      by blast
    from True s'(1) have "inner_loop P tour s = Some s'" by (subst inner_loop.simps) simp
    with s' show ?thesis by simp
  qed
qed

lemma inner_loop_inv:
  assumes inp: "search_input P cs" and nw: "nonneg_weights P" and nv: "nonneg_values P"
    and sh: "shape_inv P cs L s" and dom: "0 < L \<longrightarrow> dom_inv P cs L s"
  shows "\<exists>s'. inner_loop P cs s = Some s' \<and> shape_inv P cs L s'
            \<and> (0 < L \<longrightarrow> dom_inv P cs L s') \<and> \<not> cond_r s'
            \<and> it_l s' = it_l s \<and> cond_l s' = cond_l s"
proof -
  from inp have n: "0 < n_cities P" by (simp add: search_input_def)
  from ex_wrap_step [OF n, of "it_r s" "it_l s"] obtain j
    where j: "(it_r s + Suc j) mod n_cities P = it_l s mod n_cities P" by blast
  let ?I = "\<lambda>s. shape_inv P cs L s \<and> (0 < L \<longrightarrow> dom_inv P cs L s)"
  have step: "\<And>s. ?I s \<Longrightarrow> cond_r s \<Longrightarrow> ?I (extend_right P cs s)"
    using extend_right_shape [OF inp nw nv] extend_right_dom [OF inp nw nv] by blast
  from inner_loop_steps_inv [of ?I P cs s j, OF step j] sh dom show ?thesis by blast
qed

lemma outer_loop_inv:
  assumes inp: "search_input P cs" and nw: "nonneg_weights P" and nv: "nonneg_values P"
    and sh: "shape_inv P cs L s" and dom: "0 < L \<longrightarrow> dom_inv P cs L s"
    and l: "cond_l s \<longrightarrow> it_l s < n_cities P"
    and fin: "\<not> cond_l s \<longrightarrow> 0 < L \<longrightarrow> dominated P cs L s"
  shows "\<exists>s'. outer_loop P cs s = Some s' \<and> shape_inv P cs L s'
            \<and> (0 < L \<longrightarrow> dominated P cs L s')"
  using sh dom l fin
proof (induction "n_cities P - it_l s" arbitrary: s rule: less_induct)
  case less
  show ?case
  proof (cases "cond_l s")
    case False
    with less.prems show ?thesis by (subst outer_loop.simps) simp
  next
    case True
    with less.prems have lt: "it_l s < n_cities P" by simp
    from inner_loop_inv [OF inp nw nv less.prems(1,2)] obtain s1
      where s1: "inner_loop P cs s = Some s1" "shape_inv P cs L s1"
        "0 < L \<longrightarrow> dom_inv P cs L s1" "\<not> cond_r s1" "it_l s1 = it_l s" "cond_l s1 = cond_l s"
      by blast
    let ?s2 = "advance_left P cs s1"
    have unfold: "outer_loop P cs s = outer_loop P cs ?s2"
      using True s1(1) by (subst outer_loop.simps) simp
    from lt s1(5) have lt1: "it_l s1 < n_cities P" by simp
    note sh2 = advance_left_shape [OF inp nw nv s1(2) lt1]
    have dom2: "0 < L \<longrightarrow> (\<not> cond_l ?s2 \<longrightarrow> dominated P cs L ?s2)
                        \<and> (cond_l ?s2 \<longrightarrow> dom_inv P cs L ?s2)"
      using advance_left_dom [OF inp nw nv _ s1(2) _ s1(4) lt1] s1(3,6) True by blast
    show ?thesis
    proof (cases "cond_l ?s2")
      case False
      then have "outer_loop P cs ?s2 = Some ?s2" by (subst outer_loop.simps) simp
      with False unfold sh2 dom2 show ?thesis by simp
    next
      case True
      with advance_left_cases [OF lt1, of cs] s1(5)
      have "n_cities P - it_l ?s2 < n_cities P - it_l s" by auto
      from less.hyps [OF this sh2(1)] True dom2 sh2(2) unfold show ?thesis by auto
    qed
  qed
qed

lemma init_state_inv:
  assumes inp: "search_input P cs" and nv: "nonneg_values P"
    and L: "m_max_path_length P = Num L"
  shows "shape_inv P cs L (init_state P cs)" and "dom_inv P cs L (init_state P cs)"
proof -
  from inp have n: "0 < n_cities P" by (simp add: search_input_def)
  have "cs ! (0 mod n_cities P) < n_cities P" by (rule search_input_city [OF inp])
  then have c0: "cs ! 0 < n_cities P" by simp
  have v: "m_values P ! (cs ! 0) = Num (value_offset P cs + scanned_value P 0 0)"
    using value_nonneg [OF inp nv c0] by (simp add: value_offset_def position_value_def)
  have rec: "recorded P cs L (init_state P cs) 0 0"
    by (simp add: recorded_def init_state_def v L)
  have "\<exists>a b. a \<le> b \<and> b < a + n_cities P \<and> a \<le> n_cities P
      \<and> recorded P cs L (init_state P cs) a b \<and> (a = 0 \<and> b = 0 \<or> window_length P cs a b \<le> L)"
    using rec n by (intro exI [of _ 0]) simp
  then show "shape_inv P cs L (init_state P cs)"
    unfolding shape_inv_def using n by (simp add: init_state_def v L)
  show "dom_inv P cs L (init_state P cs)"
    unfolding dom_inv_def by (simp add: init_state_def v)
qed

text \<open>
  What the search returns when its additions and subtractions are exact, for an instance
  with non-negative weights and values: the value and the remaining budget of a window
  that is the first position of the tour or within the budget; and, for a positive
  budget, a value that no window of a length below the budget exceeds.
\<close>

lemma search_result:
  assumes inp: "search_input P cs" and nw: "nonneg_weights P" and nv: "nonneg_values P"
    and L: "m_max_path_length P = Num L"
  shows "\<exists>v a e. find_city_subsequence P (map of_size cs)
             = Some (Inr (Num v, Num (L - window_length P cs a e), a, e mod n_cities P))
           \<and> a < n_cities P \<and> a \<le> e \<and> e < a + n_cities P
           \<and> v = value_offset P cs + scanned_value P a e
           \<and> (a = 0 \<and> e = 0 \<or> window_length P cs a e \<le> L)
           \<and> value_offset P cs + scanned_value P 0 0 \<le> v
           \<and> (0 < L \<longrightarrow> (\<forall>a e. a < n_cities P \<longrightarrow> a \<le> e \<longrightarrow> e < a + n_cities P
                  \<longrightarrow> window_length P cs a e < L
                  \<longrightarrow> value_offset P cs + scanned_value P a e \<le> v))"
proof -
  let ?n = "n_cities P"
  from inp have n: "0 < ?n" and len: "length cs = ?n"
    and c: "cities_of P (map of_size cs) = Some cs"
    using cities_of_cities [of P cs] by (simp_all add: search_input_def)
  have "\<exists>s'. outer_loop P cs (init_state P cs) = Some s' \<and> shape_inv P cs L s'
            \<and> (0 < L \<longrightarrow> dominated P cs L s')"
    using init_state_inv [OF inp nv L] n
    by (intro outer_loop_inv [OF inp nw nv]) (simp_all add: init_state_def)
  then obtain s' where s': "outer_loop P cs (init_state P cs) = Some s'"
    "shape_inv P cs L s'" "0 < L \<longrightarrow> dominated P cs L s'" by blast
  from s'(2) obtain a e where ae: "a \<le> e" "e < a + ?n" "a \<le> ?n" "recorded P cs L s' a e"
    "a = 0 \<and> e = 0 \<or> window_length P cs a e \<le> L"
    and init: "value_offset P cs + scanned_value P 0 0 \<le> num (retval_p s')"
    unfolding shape_inv_def by blast
  have res: "find_city_subsequence P (map of_size cs)
      = Some (Inr (retval_p s', retval_l s', retval_it_l s', retval_it_r s'))"
    using len c s'(1) by (simp add: find_city_subsequence_def)
  have "\<exists>a e. a < ?n \<and> a \<le> e \<and> e < a + ?n \<and> recorded P cs L s' a e
      \<and> (a = 0 \<and> e = 0 \<or> window_length P cs a e \<le> L)"
  proof (cases "a = ?n")
    case False
    with ae show ?thesis by (intro exI [of _ a] exI [of _ e]) simp
  next
    case True
    with ae(1) have e: "e = (e - ?n) + ?n" by simp
    have wl: "window_length P cs a e = window_length P cs 0 (e - ?n)"
      using window_length_periodic [of P cs 0 "e - ?n"] True e by simp
    have sv: "scanned_value P a e = scanned_value P 0 (e - ?n)"
      using scanned_value_periodic [of P 0 "e - ?n"] True e by simp
    have md: "e mod ?n = (e - ?n) mod ?n"
      using e by (metis mod_add_self2)
    have "recorded P cs L s' 0 (e - ?n)"
      using ae(4) True unfolding recorded_def wl sv md by simp
    moreover have "window_length P cs 0 (e - ?n) \<le> L"
      using ae(5) True n wl by auto
    moreover have "e - ?n < 0 + ?n" using ae(2) True by simp
    ultimately show ?thesis using n by (intro exI [of _ 0] exI [of _ "e - ?n"]) simp
  qed
  then obtain a e where ae: "a < ?n" "a \<le> e" "e < a + ?n" "recorded P cs L s' a e"
    "a = 0 \<and> e = 0 \<or> window_length P cs a e \<le> L" by blast
  from ae(4) ae(1) have r: "retval_p s' = Num (value_offset P cs + scanned_value P a e)"
    "retval_l s' = Num (L - window_length P cs a e)" "retval_it_l s' = a"
    "retval_it_r s' = e mod ?n"
    unfolding recorded_def by simp_all
  have dom: "0 < L \<longrightarrow> (\<forall>a' e'. a' < ?n \<longrightarrow> a' \<le> e' \<longrightarrow> e' < a' + ?n
                  \<longrightarrow> window_length P cs a' e' < L
                  \<longrightarrow> value_offset P cs + scanned_value P a' e'
                       \<le> value_offset P cs + scanned_value P a e)"
    using s'(3) unfolding dominated_def r(1) by simp
  show ?thesis
    apply (rule exI [of _ "value_offset P cs + scanned_value P a e"])
    apply (rule exI [of _ a])
    apply (rule exI [of _ e])
    using res r ae init dom by simp
qed

section \<open>Runs without rounding\<close>

text \<open>
  The invariants above are stated for the exact sums. This section shows that on the
  instances of \<open>exact_instance\<close> the exact sums are the numbers that the source computes.
\<close>

lemma grid_unit_pos: "0 < grid_unit e"
  by (simp add: grid_unit_def)

lemma on_grid_add: "on_grid e x \<Longrightarrow> on_grid e y \<Longrightarrow> on_grid e (x + y)"
  by (simp add: on_grid_def add_divide_distrib)

lemma on_grid_diff: "on_grid e x \<Longrightarrow> on_grid e y \<Longrightarrow> on_grid e (x - y)"
  by (simp add: on_grid_def diff_divide_distrib)

lemma on_grid_sum: "(\<And>i. i \<in> A \<Longrightarrow> on_grid e (f i)) \<Longrightarrow> on_grid e (sum f A)"
  unfolding on_grid_def sum_divide_distrib by (rule Ints_sum)

lemma binary64_grid:
  assumes "- 1074 \<le> e" "e \<le> 971" "on_grid e x" "\<bar>x\<bar> < 2 ^ 53 * grid_unit e"
  shows "binary64 x"
proof -
  from assms(3) obtain m :: int where m: "x / grid_unit e = of_int m"
    by (auto simp: on_grid_def elim: Ints_cases)
  with grid_unit_pos [of e] have x: "x = of_int m * grid_unit e"
    by (simp add: field_simps)
  from assms(4) have "\<bar>real_of_int m\<bar> * grid_unit e < 2 ^ 53 * grid_unit e"
    using grid_unit_pos [of e] by (simp add: x abs_mult)
  with grid_unit_pos [of e] have "\<bar>real_of_int m\<bar> < 2 ^ 53" by simp
  then have "real_of_int \<bar>m\<bar> < real_of_int (2 ^ 53)" by simp
  then have "\<bar>m\<bar> < 2 ^ 53" by (simp only: of_int_less_iff)
  with assms(1,2) x show ?thesis
    unfolding binary64_def grid_unit_def by blast
qed

text \<open>The edges of a window of \<open>n_cities\<close> edges are the edges of the whole tour.\<close>

lemma window_length_full:
  "window_length P cs l (l + n_cities P) = window_length P cs 0 (n_cities P)"
proof (induction l)
  case 0
  show ?case by simp
next
  case (Suc l)
  have "window_length P cs l (Suc (l + n_cities P))
      = edge_weight P cs l + window_length P cs (Suc l) (Suc (l + n_cities P))"
    by (rule window_length_left) simp
  moreover have "window_length P cs l (Suc (l + n_cities P))
      = window_length P cs l (l + n_cities P) + edge_weight P cs (l + n_cities P)"
    by (rule window_length_Suc) simp
  ultimately have "window_length P cs (Suc l) (Suc (l + n_cities P))
      = window_length P cs l (l + n_cities P)"
    by (simp add: edge_periodic)
  with Suc show ?case by simp
qed

lemma total_sum_list:
  assumes "search_input P cs"
  shows "(\<Sum>q<n_cities P. num (m_values P ! q)) = sum_list (map num (m_values P))"
proof -
  from assms have len: "length (m_values P) = n_cities P"
    by (simp add: search_input_def vectors_sized_def)
  have "sum_list (map num (m_values P)) = (\<Sum>q = 0..<length (m_values P). map num (m_values P) ! q)"
    by (simp add: sum_list_sum_nth)
  also have "\<dots> = (\<Sum>q = 0..<length (m_values P). num (m_values P ! q))"
    by (rule sum.cong) simp_all
  finally show ?thesis by (simp add: len atLeast0LessThan)
qed

lemma value_le_total:
  assumes inp: "search_input P cs" and nv: "nonneg_values P" and q: "q < n_cities P"
  shows "num (m_values P ! q) \<le> sum_list (map num (m_values P))"
proof -
  have "num (m_values P ! q) \<le> (\<Sum>q<n_cities P. num (m_values P ! q))"
    by (rule member_le_sum) (use q value_nonneg [OF inp nv] in auto)
  then show ?thesis by (simp only: total_sum_list [OF inp])
qed

lemma scanned_value_bounds:
  assumes inp: "search_input P cs" and nv: "nonneg_values P"
    and lr: "l \<le> r" "r \<le> l + n_cities P"
  shows "0 \<le> scanned_value P l r"
    and "scanned_value P l r \<le> 2 * sum_list (map num (m_values P))"
proof -
  let ?T = "sum_list (map num (m_values P))"
  from inp have n: "0 < n_cities P" by (simp add: search_input_def)
  show "0 \<le> scanned_value P l r"
    unfolding scanned_value_def
    by (rule sum_nonneg) (use position_value_nonneg [OF inp nv] in auto)
  have T0: "0 \<le> ?T"
    using value_le_total [OF inp nv n] value_nonneg [OF inp nv n] by linarith
  have pv: "position_value P p \<le> ?T" for p
    unfolding position_value_def using n by (intro value_le_total [OF inp nv]) simp
  show "scanned_value P l r \<le> 2 * ?T"
  proof (cases "r < l + n_cities P")
    case True
    from scanned_value_le_total [OF inp nv lr(1) True] T0 show ?thesis
      by (simp add: total_sum_list [OF inp])
  next
    case False
    with lr n have r: "r = Suc (l + n_cities P - 1)" by simp
    have "scanned_value P l (Suc (l + n_cities P - 1))
        = scanned_value P l (l + n_cities P - 1) + position_value P (Suc (l + n_cities P - 1))"
      by (rule scanned_value_Suc) simp
    also have "\<dots> = ?T + position_value P (Suc (l + n_cities P - 1))"
      by (simp only: scanned_value_total [OF inp] total_sum_list [OF inp])
    also have "\<dots> \<le> ?T + ?T"
      using pv [of "Suc (l + n_cities P - 1)"] by simp
    finally show ?thesis using r by simp
  qed
qed

lemma exact_instance_value:
  assumes inp: "search_input P cs" and ex: "exact_instance e P cs L" and q: "q < n_cities P"
  shows "on_grid e (num (m_values P ! q))"
proof -
  from inp q have "m_values P ! q \<in> set (m_values P)"
    by (simp add: search_input_def vectors_sized_def)
  with ex show ?thesis by (simp add: exact_instance_def list_all_iff)
qed

lemma exact_instance_edge:
  assumes inp: "search_input P cs" and ex: "exact_instance e P cs L"
  shows "on_grid e (edge_weight P cs p)"
proof -
  let ?i = "cs ! (p mod n_cities P)" and ?j = "cs ! ((p + 1) mod n_cities P)"
  have i: "?i < n_cities P" and j: "?j < n_cities P"
    using search_input_city [OF inp] by simp_all
  from inp have len: "length (m_weights P) = n_cities P"
    and rows: "\<forall>row\<in>set (m_weights P). length row = n_cities P"
    by (simp_all add: search_input_def vectors_sized_def list_all_iff)
  from i len have row: "m_weights P ! ?i \<in> set (m_weights P)" by simp
  with rows j have "m_weights P ! ?i ! ?j \<in> set (m_weights P ! ?i)" by simp
  with row ex show ?thesis
    by (auto simp: exact_instance_def list_all_iff edge_def edge_weight_def)
qed

text \<open>On such an instance the value that the search accumulates for a window of at most
  \<open>n_cities + 1\<close> positions, and what the window leaves of the budget, are numbers of the
  binary64 format.\<close>

lemma window_binary64:
  assumes inp: "search_input P cs" and nw: "nonneg_weights P" and nv: "nonneg_values P"
    and ex: "exact_instance e P cs L" and lr: "l \<le> r" "r \<le> l + n_cities P"
  shows "binary64 (value_offset P cs + scanned_value P l r)"
    and "binary64 (L - window_length P cs l r)"
proof -
  let ?T = "sum_list (map num (m_values P))" and ?u = "grid_unit e"
  from inp have n: "0 < n_cities P" by (simp add: search_input_def)
  from ex have e: "- 1074 \<le> e" "e \<le> 971" and gL: "on_grid e L"
    and T: "?T < 2 ^ 51 * ?u" and W: "window_length P cs 0 (n_cities P) < 2 ^ 52 * ?u"
    and L: "\<bar>L\<bar> < 2 ^ 52 * ?u"
    by (simp_all add: exact_instance_def)
  have c0: "cs ! 0 < n_cities P" using search_input_city [OF inp, of 0] by simp
  have "on_grid e (value_offset P cs)"
    unfolding value_offset_def
    by (intro on_grid_diff exact_instance_value [OF inp ex] c0 n)
  moreover have "on_grid e (scanned_value P l r)"
    unfolding scanned_value_def position_value_def
    by (intro on_grid_sum exact_instance_value [OF inp ex]) (use n in simp)
  ultimately have g1: "on_grid e (value_offset P cs + scanned_value P l r)"
    by (rule on_grid_add)
  have off: "\<bar>value_offset P cs\<bar> \<le> ?T"
    unfolding value_offset_def
    using value_le_total [OF inp nv c0] value_le_total [OF inp nv n]
      value_nonneg [OF inp nv c0] value_nonneg [OF inp nv n]
    by linarith
  from scanned_value_bounds [OF inp nv lr] off
  have "\<bar>value_offset P cs + scanned_value P l r\<bar> \<le> 3 * ?T" by linarith
  also have "\<dots> < 2 ^ 53 * ?u" using T grid_unit_pos [of e] by simp
  finally show "binary64 (value_offset P cs + scanned_value P l r)"
    by (rule binary64_grid [OF e g1])
  have g2: "on_grid e (L - window_length P cs l r)"
    unfolding window_length_def
    by (intro on_grid_diff gL on_grid_sum exact_instance_edge [OF inp ex])
  have "window_length P cs l r \<le> window_length P cs l (l + n_cities P)"
    by (rule window_length_mono [OF inp nw lr(2)])
  then have "window_length P cs l r \<le> window_length P cs 0 (n_cities P)"
    by (simp only: window_length_full)
  moreover have "(2::real) ^ 53 * ?u = 2 ^ 52 * ?u + 2 ^ 52 * ?u" by simp
  ultimately have "\<bar>L - window_length P cs l r\<bar> < 2 ^ 53 * ?u"
    using window_length_nonneg [OF inp nw, of l r] W L by linarith
  then show "binary64 (L - window_length P cs l r)"
    by (rule binary64_grid [OF e g2])
qed

lemma shape_inv_binary64:
  assumes inp: "search_input P cs" and nw: "nonneg_weights P" and nv: "nonneg_values P"
    and ex: "exact_instance e P cs L" and sh: "shape_inv P cs L s"
  shows "\<exists>c b p q. cum_p s = Num c \<and> saved_length s = Num b
            \<and> retval_p s = Num p \<and> retval_l s = Num q
            \<and> binary64 c \<and> binary64 b \<and> binary64 p \<and> binary64 q"
proof -
  from sh have lr: "it_l s \<le> it_r s" "it_r s \<le> it_l s + n_cities P"
    and c: "cum_p s = Num (value_offset P cs + scanned_value P (it_l s) (it_r s))"
    and b: "saved_length s = Num (L - window_length P cs (it_l s) (it_r s))"
    unfolding shape_inv_def by blast+
  from sh obtain a k where ak: "a \<le> k" "k < a + n_cities P" "recorded P cs L s a k"
    unfolding shape_inv_def by blast
  from ak(2) have k: "k \<le> a + n_cities P" by simp
  from ak(3) have p: "retval_p s = Num (value_offset P cs + scanned_value P a k)"
    and q: "retval_l s = Num (L - window_length P cs a k)"
    unfolding recorded_def by blast+
  from window_binary64 [OF inp nw nv ex lr] window_binary64 [OF inp nw nv ex ak(1) k] c b p q
  show ?thesis by blast
qed

text \<open>Every state that the loops pass through satisfies \<open>shape_inv\<close>, so on such an
  instance each addition and subtraction of the run has a result that the binary64
  format holds: no operation of the run rounds.\<close>

lemma visited_shape:
  assumes inp: "search_input P cs" and nw: "nonneg_weights P" and nv: "nonneg_values P"
    and L: "m_max_path_length P = Num L" and v: "visited P cs s"
  shows "shape_inv P cs L s \<and> (cond_l s \<longrightarrow> it_l s < n_cities P)"
  using v
proof (induction rule: visited.induct)
  case start
  from inp have "0 < n_cities P" by (simp add: search_input_def)
  with init_state_inv(1) [OF inp nv L] show ?case by (simp add: init_state_def)
next
  case (right s)
  from right.IH right.hyps(2) have "it_l s < n_cities P" by simp
  moreover have "it_l (extend_right P cs s) = it_l s"
    using extend_right_fields by simp
  ultimately show ?case
    using extend_right_shape [OF inp nw nv, of L s] right.IH right.hyps(3) by simp
next
  case (left s)
  from left.IH left.hyps(2) have "it_l s < n_cities P" by simp
  with advance_left_shape [OF inp nw nv, of L s] left.IH show ?case by blast
qed

lemma visited_binary64:
  assumes inp: "search_input P cs" and nw: "nonneg_weights P" and nv: "nonneg_values P"
    and L: "m_max_path_length P = Num L" and ex: "exact_instance e P cs L"
    and v: "visited P cs s"
  shows "\<exists>c b p q. cum_p s = Num c \<and> saved_length s = Num b
            \<and> retval_p s = Num p \<and> retval_l s = Num q
            \<and> binary64 c \<and> binary64 b \<and> binary64 p \<and> binary64 q"
  using visited_shape [OF inp nw nv L v] by (intro shape_inv_binary64 [OF inp nw nv ex]) simp

lemma grid_unit_eval: "grid_unit 0 = 1" "grid_unit (- 1) = 1 / 2"
  by (simp_all add: grid_unit_def powr_minus_divide)

lemma exact_instance_budget [simp]:
  "exact_instance e (P\<lparr>m_max_path_length := x\<rparr>) cs L = exact_instance e P cs L"
  by (simp add: exact_instance_def window_length_def edge_weight_def edge_def)

section \<open>The best window\<close>

lemma budget_update [simp]:
  "search_input (P\<lparr>m_max_path_length := x\<rparr>) cs = search_input P cs"
  "nonneg_weights (P\<lparr>m_max_path_length := x\<rparr>) = nonneg_weights P"
  "nonneg_values (P\<lparr>m_max_path_length := x\<rparr>) = nonneg_values P"
  "window_length (P\<lparr>m_max_path_length := x\<rparr>) cs a e = window_length P cs a e"
  "scanned_value (P\<lparr>m_max_path_length := x\<rparr>) a e = scanned_value P a e"
  "position_value (P\<lparr>m_max_path_length := x\<rparr>) a = position_value P a"
  "value_offset (P\<lparr>m_max_path_length := x\<rparr>) cs = value_offset P cs"
  by (simp_all add: search_input_def vectors_sized_def nonneg_weights_def nonneg_values_def
      window_length_def edge_weight_def edge_def scanned_value_def position_value_def
      value_offset_def)

lemmas window_eval =
  window_length_def window_value_def edge_weight_def edge_def num_def
  sum.atLeast_Suc_lessThan

lemmas new_eval =
  tsp_cs_new_def check_weights_def check_cell_def dne_def lnot_def to_bool_def
  of_bool_d_def deref_def std_min_def

lemma default_input:
  "search_input (tsp_cs_default\<lparr>m_max_path_length := x\<rparr>) [0, 1, 2]"
  "nonneg_weights (tsp_cs_default\<lparr>m_max_path_length := x\<rparr>)"
  "nonneg_values (tsp_cs_default\<lparr>m_max_path_length := x\<rparr>)"
  by (simp_all add: search_input_def vectors_sized_def nonneg_weights_def nonneg_values_def
      nonneg_def tsp_cs_default_def)

text \<open>
  The bounds of \<open>exact_instance\<close> are needed. An odd integer of the binary64 format is
  below \<open>2 ^ 53\<close> in magnitude. For the weights \<open>10 ^ 17\<close> and the budget \<open>1\<close>, which are
  numbers of the format, the first pass of the inner loop subtracts \<open>10 ^ 17\<close> from \<open>1\<close>:
  the difference is no number of the format, so the source rounds it, and \<open>dsub\<close> is not
  the operation of the source there.
\<close>

lemma binary64_odd:
  assumes b: "binary64 (of_int k)" and odd: "odd k"
  shows "\<bar>k\<bar> < 2 ^ 53"
proof -
  from b obtain m e :: int where m: "\<bar>m\<bar> < 2 ^ 53"
    and x: "real_of_int k = of_int m * 2 powr of_int e"
    unfolding binary64_def by blast
  show ?thesis
  proof (cases "0 \<le> e")
    case True
    then have "of_int e = real (nat e)" by simp
    then have "2 powr of_int e = (2::real) ^ nat e" by (simp only: powr_realpow zero_less_numeral)
    with x have "real_of_int k = of_int (m * 2 ^ nat e)" by simp
    then have k: "k = m * 2 ^ nat e" by (simp only: of_int_eq_iff)
    with odd have "nat e = 0" by (cases "nat e") simp_all
    with k m show ?thesis by simp
  next
    case False
    then have "(2::real) powr of_int e \<le> 2 powr 0" by (intro powr_mono) simp_all
    then have le: "(2::real) powr of_int e \<le> 1" by simp
    have "\<bar>real_of_int k\<bar> = \<bar>real_of_int m\<bar> * 2 powr of_int e" by (simp add: x abs_mult)
    also have "\<dots> \<le> \<bar>real_of_int m\<bar> * 1" by (intro mult_left_mono le) simp
    finally have "real_of_int \<bar>k\<bar> \<le> real_of_int \<bar>m\<bar>" by simp
    then have "\<bar>k\<bar> \<le> \<bar>m\<bar>" by (simp only: of_int_le_iff)
    with m show ?thesis by simp
  qed
qed

lemma binary64_one: "binary64 1"
  unfolding binary64_def by (rule exI [of _ 1], rule exI [of _ 0]) simp

lemma two_powr_17: "(2::real) powr 17 = 2 ^ 17"
  using powr_realpow [of "2::real" 17] by simp

lemma ten_pow_17: "(10::real) ^ 17 = 762939453125 * 2 ^ 17"
  by simp

lemma binary64_ten_pow_17: "binary64 (10 ^ 17)"
proof -
  have "(10::real) ^ 17 = of_int 762939453125 * 2 powr of_int 17"
    unfolding of_int_numeral two_powr_17 by (rule ten_pow_17)
  moreover have "\<bar>762939453125::int\<bar> < 2 ^ 53" "- 1074 \<le> (17::int)" "(17::int) \<le> 971"
    by simp_all
  ultimately show ?thesis unfolding binary64_def by blast
qed

lemma not_binary64_difference: "\<not> binary64 (1 - 10 ^ 17)"
proof
  assume "binary64 (1 - 10 ^ 17)"
  then have "binary64 (of_int (1 - 10 ^ 17))" by simp
  from binary64_odd [OF this] show False by simp
qed

lemma first_subtraction:
  "(case tsp_cs_new [[Num 0, Num (10 ^ 17)], [Num (10 ^ 17), Num 0]] [Num 1, Num 5] (Num 1)
          CITIES of
      Inl e \<Rightarrow> False
    | Inr P \<Rightarrow>
        search_input P [0, 1] \<and> nonneg_weights P \<and> nonneg_values P
        \<and> cond_l (init_state P [0, 1]) \<and> cond_r (init_state P [0, 1])
        \<and> saved_length (init_state P [0, 1]) = Num 1
        \<and> edge P [0, 1] (it_r (init_state P [0, 1])) = Num (10 ^ 17))"
    by (simp add: new_eval init_state_def edge_def search_input_def vectors_sized_def
        nonneg_weights_def nonneg_values_def nonneg_def)

lemma subtraction_rounds:
  "(case tsp_cs_new [[Num 0, Num (10 ^ 17)], [Num (10 ^ 17), Num 0]] [Num 1, Num 5] (Num 1)
          CITIES of
      Inl e \<Rightarrow> False
    | Inr P \<Rightarrow>
        search_input P [0, 1] \<and> nonneg_weights P \<and> nonneg_values P
        \<and> cond_l (init_state P [0, 1]) \<and> cond_r (init_state P [0, 1])
        \<and> saved_length (init_state P [0, 1]) = Num 1
        \<and> edge P [0, 1] (it_r (init_state P [0, 1])) = Num (10 ^ 17))
   \<and> binary64 1 \<and> binary64 (10 ^ 17) \<and> \<not> binary64 (1 - 10 ^ 17)"
  using first_subtraction binary64_one binary64_ten_pow_17 not_binary64_difference
  by (intro conjI)




section \<open>Monotonicity in the budget\<close>




section \<open>The sign of the weights\<close>

text \<open>
  C4. The claim: every matrix that \<^verbatim>\<open>check_weights\<close> accepts has only non-negative
  entries, so that the length of a window does not decrease when the window grows by one
  position. Amended: \<^verbatim>\<open>check_weights\<close> does not look at the sign of an entry; for every
  accepted matrix whose entries are finite and not negative, the entries off the diagonal
  are positive, the length of a window does not decrease when the window grows by one
  position, and a step of the inner loop does not increase the remaining budget.
\<close>

theorem window_length_monotone:
  assumes acc: "check_weights (m_weights P) = Inr ()"
    and inp: "search_input P cs" and nw: "nonneg_weights P"
  shows "window_length P cs l r \<le> window_length P cs l (Suc r)
       \<and> (\<forall>s b. saved_length s = Num b
             \<longrightarrow> (\<exists>b'. saved_length (extend_right P cs s) = Num b' \<and> b' \<le> b))
       \<and> (\<forall>i j. i < n_cities P \<longrightarrow> j < n_cities P \<longrightarrow> i \<noteq> j
             \<longrightarrow> (\<exists>w. m_weights P ! i ! j = Num w \<and> 0 < w))"
proof -
  have 1: "window_length P cs l r \<le> window_length P cs l (Suc r)"
    by (rule window_length_mono [OF inp nw]) simp
  have 2: "\<exists>b'. saved_length (extend_right P cs s) = Num b' \<and> b' \<le> b"
    if "saved_length s = Num b" for s b
  proof -
    from edge_nonneg [OF inp nw, of "it_r s"]
    have e: "edge P cs (it_r s) = Num (edge_weight P cs (it_r s))"
      "0 \<le> edge_weight P cs (it_r s)" by blast+
    have "saved_length (extend_right P cs s) = Num (b - edge_weight P cs (it_r s))"
      by (simp add: extend_right_def Let_def that e(1))
    with e(2) show ?thesis by simp
  qed
  have 3: "\<exists>w. m_weights P ! i ! j = Num w \<and> 0 < w"
    if ij: "i < n_cities P" "j < n_cities P" "i \<noteq> j" for i j
  proof -
    from inp have len: "length (m_weights P) = n_cities P"
      and rows: "\<forall>row\<in>set (m_weights P). length row = n_cities P"
      by (simp_all add: search_input_def vectors_sized_def list_all_iff)
    from ij len have row: "m_weights P ! i \<in> set (m_weights P)" by simp
    with rows ij have "m_weights P ! i ! j \<in> set (m_weights P ! i)" by simp
    with row nw have "nonneg (m_weights P ! i ! j)"
      by (auto simp: nonneg_weights_def list_all_iff)
    from nonneg_num [OF this] have w: "m_weights P ! i ! j = Num (num (m_weights P ! i ! j))"
      "0 \<le> num (m_weights P ! i ! j)" by blast+
    from acc ij len have "m_weights P ! i ! j \<noteq> Num 0"
      unfolding check_weights_accepts_iff by auto
    with w have "0 < num (m_weights P ! i ! j)" by (cases "num (m_weights P ! i ! j) = 0") auto
    with w(1) show ?thesis by blast
  qed
  from 1 2 3 show ?thesis by blast
qed

theorem window_length_monotone_witness:
  "check_weights (m_weights tsp_cs_default) = Inr ()
   \<and> search_input tsp_cs_default [0, 1, 2] \<and> nonneg_weights tsp_cs_default
   \<and> window_length tsp_cs_default [0, 1, 2] 0 1 \<le> window_length tsp_cs_default [0, 1, 2] 0 (Suc 1)
   \<and> (\<exists>w. m_weights tsp_cs_default ! 0 ! 1 = Num w \<and> 0 < w)"
proof -
  have acc: "check_weights (m_weights tsp_cs_default) = Inr ()"
    by (simp add: tsp_cs_default_def new_eval)
  have inp: "search_input tsp_cs_default [0, 1, 2]" and nw: "nonneg_weights tsp_cs_default"
    using default_input [of "m_max_path_length tsp_cs_default"] by simp_all
  have n: "n_cities tsp_cs_default = 3" by (simp add: tsp_cs_default_def)
  from window_length_monotone [OF acc inp nw, of 0 1]
  have "window_length tsp_cs_default [0, 1, 2] 0 1 \<le> window_length tsp_cs_default [0, 1, 2] 0 (Suc 1)"
    and "\<exists>w. m_weights tsp_cs_default ! 0 ! 1 = Num w \<and> 0 < w"
    unfolding n by simp_all
  with acc inp nw show ?thesis by simp
qed

text \<open>The validator accepts a matrix with negative entries, and on it the window of
  two positions is shorter than the window of one.\<close>

theorem accepted_weights_counterexample:
  "check_weights [[Num 0, Num (- 1)], [Num (- 1), Num 0]] = Inr ()
   \<and> (case tsp_cs_new [[Num 0, Num (- 1)], [Num (- 1), Num 0]] [Num 1, Num 1] (Num 1) CITIES of
      Inl e \<Rightarrow> False
    | Inr P \<Rightarrow>
        m_weights P ! 0 ! 1 = Num (- 1)
        \<and> window_length P [0, 1] 0 0 = 0
        \<and> window_length P [0, 1] 0 1 = - 1)"
  by (simp add: new_eval window_eval)

section \<open>Evaluation as a function of the instance and the chromosome\<close>

lemma find_city_subsequence_returns: "\<exists>r. find_city_subsequence P tour = Some r"
proof (cases "length tour = n_cities P \<and> cities_of P tour \<noteq> None")
  case False
  then show ?thesis by (auto simp: find_city_subsequence_def)
next
  case True
  then obtain cs where cs: "cities_of P tour = Some cs" by blast
  then have n: "0 < n_cities P" by (auto simp: cities_of_def split: if_splits)
  have "\<exists>s'. outer_loop P cs (init_state P cs) = Some s' \<and> it_l s' \<le> n_cities P \<and> \<not> cond_l s'"
    using n by (intro outer_loop_terminates) (simp_all add: init_state_def)
  with True cs show ?thesis by (auto simp: find_city_subsequence_def)
qed

lemma objfun_impl_buffer:
  assumes "length f1 = 1" "length f2 = 1"
  shows "objfun_impl d1 d2 P f1 x = objfun_impl d1 d2 P f2 x"
    and "\<exists>r. objfun_impl d1 d2 P f1 x = Some r \<and> (case r of Inl e \<Rightarrow> True | Inr f' \<Rightarrow> length f' = 1)"
proof -
  from assms obtain a b where f: "f1 = [a]" "f2 = [b]"
    by (metis One_nat_def length_0_conv length_Suc_conv)
  obtain r where fcs: "find_city_subsequence P (decode_tour d1 d2 P x) = Some r"
    using find_city_subsequence_returns by blast
  show "objfun_impl d1 d2 P f1 x = objfun_impl d1 d2 P f2 x"
    unfolding objfun_impl_def f Let_def fcs by (cases r) (simp_all split: prod.splits)
  show "\<exists>r. objfun_impl d1 d2 P f1 x = Some r \<and> (case r of Inl e \<Rightarrow> True | Inr f' \<Rightarrow> length f' = 1)"
    unfolding objfun_impl_def f Let_def fcs by (cases r) (simp_all split: prod.splits)
qed

lemma fold_degree_step:
  assumes "i < length c" "i + n < length c" "0 < n"
  shows "fold (degree_step n x i) js c
           = c[i := row_sum n x i js (c ! i), i + n := col_sum n x i js (c ! (i + n))]"
  using assms
proof (induction js arbitrary: c)
  case Nil
  then show ?case by (simp add: row_sum_def col_sum_def)
next
  case (Cons j js)
  show ?case
  proof (cases "i = j")
    case True
    with Cons show ?thesis by (simp add: degree_step_def row_sum_def col_sum_def)
  next
    case False
    let ?c' = "degree_step n x i j c"
    have c': "?c' = c[i := dadd (c ! i) (x ! compute_idx i j n),
                      i + n := dadd (c ! (i + n)) (x ! compute_idx j i n)]"
      using False Cons.prems by (simp add: degree_step_def Let_def)
    have len: "i < length ?c'" "i + n < length ?c'" using Cons.prems by (simp_all add: c')
    have vi: "?c' ! i = dadd (c ! i) (x ! compute_idx i j n)"
      and vn: "?c' ! (i + n) = dadd (c ! (i + n)) (x ! compute_idx j i n)"
      using Cons.prems by (simp_all add: c')
    have "fold (degree_step n x i) (j # js) c = fold (degree_step n x i) js ?c'" by simp
    also have "\<dots> = ?c'[i := row_sum n x i js (?c' ! i), i + n := col_sum n x i js (?c' ! (i + n))]"
      by (rule Cons.IH [OF len Cons.prems(3)])
    also have "\<dots> = c[i := row_sum n x i (j # js) (c ! i),
                       i + n := col_sum n x i (j # js) (c ! (i + n))]"
      unfolding vi vn using False Cons.prems
      by (simp add: c' row_sum_def col_sum_def list_update_swap [of i "i + n"])
    finally show ?thesis .
  qed
qed

lemma fitness_default_cities:
  "objfun_impl (\<lambda>x. x) (\<lambda>x. x) (tsp_cs_default\<lparr>encoding := CITIES\<rparr>) [NaN]
       [Num 0, Num 1, Num 2] = Some (Inr [Num (- 2)])"
  unfolding objfun_impl_def decode_tour_def
  by (simp add: default_subsequence_cities)
    (simp add: fitness_value_def tsp_cs_default_def dsub_def of_size_def)

lemma constraint_example_cities:
  "compute_constraints_impl (tsp_cs_default\<lparr>encoding := CITIES\<rparr>) [NaN] [Num 0, Num 0, Num 2]
     = Inr [Num 1]"
  by (simp add: compute_constraints_impl_def tsp_cs_default_def upt_3 is_permutation_def
      common_prefix_def scan_ok_def of_size_def of_bool_d_def Let_def)

lemma nth_list_update_any:
  "k < length xs \<Longrightarrow> xs[i := v] ! k = (if i = k then v else xs ! k)"
  by (cases "i = k") simp_all

lemma degree_row_eq:
  assumes "i < n" "2 * n \<le> length c"
  shows "degree_row n x i c
           = c[i := dsub (row_sum n x i [0..<n] (Num 0)) (Num 1),
               i + n := dsub (col_sum n x i [0..<n] (Num 0)) (Num 1)]"
proof -
  let ?c2 = "c[i := Num 0, i + n := Num 0]"
  from assms have len: "i < length ?c2" "i + n < length ?c2" and n: "0 < n" by simp_all
  have v: "?c2 ! i = Num 0" "?c2 ! (i + n) = Num 0" using assms by simp_all
  show ?thesis
    unfolding degree_row_def Let_def fold_degree_step [OF len n] v
    using assms by (simp add: list_update_swap [of i "i + n"])
qed

lemma degree_row_agree:
  assumes "agree S c1 c2" "i < n" "2 * n \<le> length c1"
  shows "agree (S - {i, i + n}) (degree_row n x i c1) (degree_row n x i c2)"
proof -
  from assms have len: "length c1 = length c2" "2 * n \<le> length c2"
    and eq: "\<And>k. k < length c1 \<Longrightarrow> k \<notin> S \<Longrightarrow> c1 ! k = c2 ! k"
    by (simp_all add: agree_def)
  show ?thesis
    unfolding degree_row_eq [OF assms(2,3)] degree_row_eq [OF assms(2) len(2)] agree_def
    using len eq by (auto simp: nth_list_update_any)
qed

lemma degree_constraints_agree:
  assumes "agree S c1 c2" "\<forall>i\<in>set is. i < n" "2 * n \<le> length c1"
  shows "agree (S - (set is \<union> (\<lambda>i. i + n) ` set is))
           (fold (degree_row n x) is c1) (fold (degree_row n x) is c2)"
  using assms
proof (induction "is" arbitrary: S c1 c2)
  case Nil
  then show ?case by simp
next
  case (Cons i "is")
  from Cons.prems have i: "i < n" by simp
  have a: "agree (S - {i, i + n}) (degree_row n x i c1) (degree_row n x i c2)"
    using Cons.prems(1) i Cons.prems(3) by (rule degree_row_agree)
  have l: "2 * n \<le> length (degree_row n x i c1)"
    using Cons.prems(3) i by (simp add: degree_row_eq)
  have "S - {i, i + n} - (set is \<union> (\<lambda>i. i + n) ` set is)
          = S - (set (i # is) \<union> (\<lambda>i. i + n) ` set (i # is))" by auto
  with Cons.IH [OF a _ l] Cons.prems(2) show ?case by simp
qed

lemma subtour_agree:
  assumes "agree S c1 c2"
  shows "agree (S - {2 * n + cnt..<2 * n + cnt + length as})
           (fst (fold (subtour_step n x u) as (c1, cnt)))
           (fst (fold (subtour_step n x u) as (c2, cnt)))"
  using assms
proof (induction as arbitrary: S c1 c2 cnt)
  case Nil
  then show ?case by simp
next
  case (Cons a as)
  let ?v = "subtour_value n x u (fst a) (snd a)"
  have a: "agree (S - {2 * n + cnt}) (c1[2 * n + cnt := ?v]) (c2[2 * n + cnt := ?v])"
    using Cons.prems by (auto simp: agree_def nth_list_update_any)
  have "S - {2 * n + cnt} - {2 * n + (cnt + 1)..<2 * n + (cnt + 1) + length as}
          = S - {2 * n + cnt..<2 * n + cnt + length (a # as)}" by auto
  with Cons.IH [OF a, of "cnt + 1"] show ?case by (simp add: subtour_step_def)
qed

lemma length_arcs: "length (arcs lo n) = (n - lo) * (n - lo - 1)"
proof -
  have one: "length (filter (\<lambda>j. i \<noteq> j) [lo..<n]) = n - lo - 1" if "i \<in> set [lo..<n]" for i
  proof -
    have "length (filter (\<lambda>j. j = i) [lo..<n]) = 1"
      using that by (intro length_filter_eq_distinct) simp_all
    moreover have "length (filter (\<lambda>j. j = i) [lo..<n]) + length (filter (\<lambda>j. \<not> j = i) [lo..<n])
        = length [lo..<n]"
      by (rule sum_length_filter_compl)
    moreover have "filter (\<lambda>j. \<not> j = i) [lo..<n] = filter (\<lambda>j. i \<noteq> j) [lo..<n]"
      by (rule filter_cong) auto
    ultimately show ?thesis by simp
  qed
  have "length (arcs lo n) = (\<Sum>i\<leftarrow>[lo..<n]. length (filter (\<lambda>j. i \<noteq> j) [lo..<n]))"
    by (simp add: arcs_def length_concat comp_def)
  also have "\<dots> = (\<Sum>i\<leftarrow>[lo..<n]. n - lo - 1)"
    using one by (intro arg_cong [of _ _ sum_list] map_cong) simp_all
  also have "\<dots> = (n - lo) * (n - lo - 1)" by (simp add: sum_list_triv)
  finally show ?thesis .
qed

lemma full_dimension:
  assumes "1 \<le> (n::nat)"
  shows "n * (n - 1) + 2 = 2 * n + (n - 1) * (n - 2)"
proof (cases "n = 1")
  case True
  then show ?thesis by simp
next
  case False
  with assms have "2 \<le> n" by simp
  from le_Suc_ex [OF this] obtain m where "n = m + 2" by (auto simp: add.commute)
  then show ?thesis by (simp add: algebra_simps)
qed

lemma full_constraints_buffer:
  assumes n: "1 \<le> n" and l1: "length c1 = n * (n - 1) + 2" and l2: "length c2 = length c1"
  shows "subtour_constraints n x u (degree_constraints n x c1)
           = subtour_constraints n x u (degree_constraints n x c2)"
proof -
  let ?S = "{0..<length c1}"
  let ?d1 = "degree_constraints n x c1" and ?d2 = "degree_constraints n x c2"
  let ?r1 = "subtour_constraints n x u ?d1" and ?r2 = "subtour_constraints n x u ?d2"
  from l1 full_dimension [OF n] have len: "length c1 = 2 * n + (n - 1) * (n - 2)" by simp
  have a0: "agree ?S c1 c2" using l2 by (simp add: agree_def)
  have "agree (?S - (set [0..<n] \<union> (\<lambda>i. i + n) ` set [0..<n])) ?d1 ?d2"
    unfolding degree_constraints_def
    using a0 len by (intro degree_constraints_agree) simp_all
  from subtour_agree [OF this, of n 0 "arcs 1 n" x u]
  have a2: "agree (?S - (set [0..<n] \<union> (\<lambda>i. i + n) ` set [0..<n])
                   - {2 * n..<2 * n + (n - 1) * (n - 2)}) ?r1 ?r2"
    by (simp add: subtour_constraints_def length_arcs numeral_2_eq_2)
  have "k \<in> set [0..<n] \<union> (\<lambda>i. i + n) ` set [0..<n] \<union> {2 * n..<2 * n + (n - 1) * (n - 2)}"
    if "k < length c1" for k
  proof -
    from that len consider "k < n" | "n \<le> k" "k < 2 * n" | "2 * n \<le> k" "k < 2 * n + (n - 1) * (n - 2)"
      by linarith
    then show ?thesis
    proof cases
      case 2
      then have "k = (k - n) + n" "k - n < n" by simp_all
      then have "k \<in> (\<lambda>i. i + n) ` set [0..<n]"
        by (intro image_eqI [of _ _ "k - n"]) simp_all
      then show ?thesis by blast
    qed auto
  qed
  then have "?S \<subseteq> set [0..<n] \<union> (\<lambda>i. i + n) ` set [0..<n]
                   \<union> {2 * n..<2 * n + (n - 1) * (n - 2)}"
    by (intro subsetI) (simp only: atLeastLessThan_iff)
  then have empty: "?S - (set [0..<n] \<union> (\<lambda>i. i + n) ` set [0..<n])
                   - {2 * n..<2 * n + (n - 1) * (n - 2)} = {}" by blast
  from a2 show ?thesis unfolding empty agree_def by (auto intro: nth_equalityI)
qed

lemma constraints_buffer:
  assumes n: "1 \<le> n_cities P"
    and l1: "length c1 = fst (compute_dimensions (n_cities P) (encoding P))"
    and l2: "length c2 = length c1"
  shows "compute_constraints_impl P c1 x = compute_constraints_impl P c2 x"
proof (cases "encoding P")
  case FULL
  with l1 have len: "length c1 = n_cities P * (n_cities P - 1) + 2"
    by (simp add: compute_dimensions_def)
  from full_constraints_buffer [OF n len l2] l2 FULL show ?thesis
    by (simp add: compute_constraints_impl_def Let_def)
next
  case RANDOMKEYS
  with l1 l2 show ?thesis by (simp add: compute_constraints_impl_def compute_dimensions_def)
next
  case CITIES
  with l1 l2 obtain a b where "c1 = [a]" "c2 = [b]"
    by (simp add: compute_dimensions_def) (metis One_nat_def length_0_conv length_Suc_conv)
  with CITIES show ?thesis by (simp add: compute_constraints_impl_def Let_def)
qed

lemma length_fold_degree_step: "length (fold (degree_step n x i) js c) = length c"
  by (induction js arbitrary: c) (simp_all add: degree_step_def Let_def)

lemma length_degree_constraints: "length (degree_constraints n x c) = length c"
proof -
  have row: "length (degree_row n x i c) = length c" for i c
    by (simp add: degree_row_def Let_def length_fold_degree_step)
  have "length (fold (degree_row n x) is c) = length c" for "is"
    by (induction "is" arbitrary: c) (simp_all add: row)
  then show ?thesis by (simp add: degree_constraints_def)
qed

lemma length_subtour_constraints: "length (subtour_constraints n x u c) = length c"
proof -
  have "length (fst (fold (subtour_step n x u) as (c, cnt))) = length c" for as cnt
    by (induction as arbitrary: c cnt) (simp_all add: subtour_step_def)
  then show ?thesis by (simp add: subtour_constraints_def)
qed

lemma length_compute_constraints_impl:
  "compute_constraints_impl P c x = Inr c' \<Longrightarrow> length c' = length c"
  by (cases "encoding P")
    (auto simp: compute_constraints_impl_def Let_def length_subtour_constraints
      length_degree_constraints split: if_splits)

text \<open>
  C8. For an instance with at least one city, a call of \<^verbatim>\<open>objfun_impl\<close> on a fitness
  vector of one entry returns, and a call of \<^verbatim>\<open>compute_constraints_impl\<close> on a constraint
  vector of the dimension of the encoding yields a result. The result is the same
  whatever the output vector held before the call; the instance that the call leaves is
  the instance it was made on, with its weights, values, maximal path length and minimal
  value; and a second call with the same chromosome, on the state that the first call
  left, yields the result of the first.
\<close>

theorem evaluation_deterministic:
  assumes n: "1 \<le> n_cities P" and f1: "length f1 = 1" and f2: "length f2 = 1"
    and c1: "length c1 = fst (compute_dimensions (n_cities P) (encoding P))"
    and c2: "length c2 = length c1"
  shows "(\<exists>r. objfun_impl_call d1 d2 (P, f1) x = Some r
            \<and> objfun_impl_call d1 d2 (P, f2) x = Some r
            \<and> (case r of Inl e \<Rightarrow> True
                | Inr st \<Rightarrow> fst st = P \<and> objfun_impl_call d1 d2 st x = Some r))
       \<and> (\<exists>r. compute_constraints_impl_call (P, c1) x = r
            \<and> compute_constraints_impl_call (P, c2) x = r
            \<and> (case r of Inl e \<Rightarrow> True
                | Inr st \<Rightarrow> fst st = P \<and> compute_constraints_impl_call st x = r))"
proof
  from objfun_impl_buffer(2) [OF f1 f1, of d1 d2 P x] obtain r
    where r: "objfun_impl d1 d2 P f1 x = Some r"
      "case r of Inl e \<Rightarrow> True | Inr f' \<Rightarrow> length f' = 1" by blast
  have r2: "objfun_impl d1 d2 P f2 x = Some r"
    using objfun_impl_buffer(1) [OF f1 f2, of d1 d2 P x] r(1) by simp
  show "\<exists>r. objfun_impl_call d1 d2 (P, f1) x = Some r
            \<and> objfun_impl_call d1 d2 (P, f2) x = Some r
            \<and> (case r of Inl e \<Rightarrow> True
                | Inr st \<Rightarrow> fst st = P \<and> objfun_impl_call d1 d2 st x = Some r)"
  proof (cases r)
    case (Inl e)
    with r(1) r2 show ?thesis by (simp add: objfun_impl_call_def)
  next
    case (Inr f')
    with r(2) have "length f' = 1" by simp
    from objfun_impl_buffer(1) [OF this f1, of d1 d2 P x] r(1)
    have "objfun_impl d1 d2 P f' x = Some r" by simp
    with Inr r(1) r2 show ?thesis by (simp add: objfun_impl_call_def)
  qed
next
  have eq: "compute_constraints_impl P c2 x = compute_constraints_impl P c1 x"
    using constraints_buffer [OF n c1 c2, of x] by simp
  show "\<exists>r. compute_constraints_impl_call (P, c1) x = r
            \<and> compute_constraints_impl_call (P, c2) x = r
            \<and> (case r of Inl e \<Rightarrow> True
                | Inr st \<Rightarrow> fst st = P \<and> compute_constraints_impl_call st x = r)"
  proof (cases "compute_constraints_impl P c1 x")
    case (Inl e)
    with eq show ?thesis by (simp add: compute_constraints_impl_call_def)
  next
    case (Inr c')
    from length_compute_constraints_impl [OF this] have "length c' = length c1" .
    from constraints_buffer [OF n c1 this, of x] Inr
    have "compute_constraints_impl P c' x = Inr c'" by simp
    with Inr eq show ?thesis by (simp add: compute_constraints_impl_call_def)
  qed
qed

theorem evaluation_deterministic_witness:
  "objfun_impl_call (\<lambda>x. x) (\<lambda>x. x) (tsp_cs_default\<lparr>encoding := CITIES\<rparr>, [NaN])
       [Num 0, Num 1, Num 2]
     = Some (Inr (tsp_cs_default\<lparr>encoding := CITIES\<rparr>, [Num (- 2)]))
   \<and> objfun_impl_call (\<lambda>x. x) (\<lambda>x. x) (tsp_cs_default\<lparr>encoding := CITIES\<rparr>, [Num 7])
       [Num 0, Num 1, Num 2]
     = Some (Inr (tsp_cs_default\<lparr>encoding := CITIES\<rparr>, [Num (- 2)]))
   \<and> compute_constraints_impl_call (tsp_cs_default\<lparr>encoding := CITIES\<rparr>, [NaN])
       [Num 0, Num 0, Num 2]
     = Inr (tsp_cs_default\<lparr>encoding := CITIES\<rparr>, [Num 1])
   \<and> compute_constraints_impl_call (tsp_cs_default\<lparr>encoding := CITIES\<rparr>, [Num 7])
       [Num 0, Num 0, Num 2]
     = Inr (tsp_cs_default\<lparr>encoding := CITIES\<rparr>, [Num 1])"
proof -
  let ?P = "tsp_cs_default\<lparr>encoding := CITIES\<rparr>"
  have h: "1 \<le> n_cities ?P" "length [NaN] = 1" "length [Num 7] = 1"
    "length [NaN] = fst (compute_dimensions (n_cities ?P) (encoding ?P))"
    "length [Num 7] = length [NaN]"
    by (simp_all add: tsp_cs_default_def compute_dimensions_def)
  have o: "objfun_impl_call (\<lambda>x. x) (\<lambda>x. x) (?P, [NaN]) [Num 0, Num 1, Num 2]
             = Some (Inr (?P, [Num (- 2)]))"
    using fitness_default_cities
    by (simp add: objfun_impl_call_def)
  have c: "compute_constraints_impl_call (?P, [NaN]) [Num 0, Num 0, Num 2] = Inr (?P, [Num 1])"
    using constraint_example_cities by (simp add: compute_constraints_impl_call_def)
  from evaluation_deterministic [OF h, of "\<lambda>x. x" "\<lambda>x. x" "[Num 0, Num 1, Num 2]"] o
  have o2: "objfun_impl_call (\<lambda>x. x) (\<lambda>x. x) (?P, [Num 7]) [Num 0, Num 1, Num 2]
             = Some (Inr (?P, [Num (- 2)]))"
    by auto
  from evaluation_deterministic [OF h, of _ _ "[Num 0, Num 0, Num 2]"] c
  have c2: "compute_constraints_impl_call (?P, [Num 7]) [Num 0, Num 0, Num 2] = Inr (?P, [Num 1])"
    by auto
  from o o2 c c2 show ?thesis by simp
qed

end
